theory Spec2Isabelle
  imports Main "HOL-Library.AList" "HOL-Library.Char_ord" "HOL-Library.List_Lexorder"
    "HOL-Library.Sublist"
begin

section \<open>Python values and strings\<close>

text \<open>
  Python strings are modelled as \<^typ>\<open>string\<close>; a character stands for the code point
  of the same number (below 256). A Python \<^verbatim>\<open>dict\<close> keeps insertion order, so it is an
  association list: \<^const>\<open>map_of\<close> is the lookup, \<^const>\<open>AList.update\<close> is
  \<^verbatim>\<open>d[k] = v\<close> (an existing key keeps its place, a new key is appended), and iterating
  \<^verbatim>\<open>d.items()\<close> walks the list.
\<close>

datatype py_error =
  ParseError | SyntaxError | KeyError | ValueError | TypeError | IndexError | Unmodelled

text \<open>
  The exceptions the modelled code can raise. \<^const>\<open>Unmodelled\<close> is not a Python
  exception: it marks the two constructs of the path language (the parent step \<^verbatim>\<open>..\<close> and
  predicates \<^verbatim>\<open>[...]\<close>) whose library behaviour this development does not describe.
\<close>

datatype pyobj = PyNone | PyStr string | NaN | PyInt int

text \<open>
  Cell values: \<^verbatim>\<open>None\<close>, a string, the float \<^verbatim>\<open>nan\<close> that pandas uses for a missing
  entry, and (in a template only) a number.
\<close>

definition isspace :: "char \<Rightarrow> bool" where
  "isspace c = ((of_char c :: nat) \<in> {9, 10, 11, 12, 13, 28, 29, 30, 31, 32, 133, 160})"

definition strip :: "string \<Rightarrow> string" where
  "strip s = rev (dropWhile isspace (rev (dropWhile isspace s)))"

text \<open>\<^verbatim>\<open>s.rsplit('/@', 1)\<close>: split at the last occurrence of \<^verbatim>\<open>/@\<close>; \<open>None\<close> when
  there is none (Python then returns a one-element list).\<close>

fun rsplit_attr :: "string \<Rightarrow> (string \<times> string) option" where
  "rsplit_attr [] = None"
| "rsplit_attr (c # cs) =
     (case rsplit_attr cs of
        Some (a, b) \<Rightarrow> Some (c # a, b)
      | None \<Rightarrow> if prefix ''/@'' (c # cs) then Some ([], drop 2 (c # cs)) else None)"

section \<open>XML documents (xml.etree.ElementTree)\<close>

datatype element = Element (tag: string) (attrib: "(string \<times> string) list")
  (etext: "string option") (children: "element list")

text \<open>
  An element has its tag, its attribute dictionary, its text (\<^verbatim>\<open>None\<close> when absent) and
  its child elements. A file is given by what \<^verbatim>\<open>ET.parse\<close> makes of it: a parse error
  when it is not well-formed, the root element otherwise.
\<close>

datatype xml_file = NotWellFormed | WellFormed element

fun ET_parse :: "xml_file \<Rightarrow> py_error + element" where
  "ET_parse NotWellFormed = Inl ParseError"
| "ET_parse (WellFormed root) = Inr root"

fun iter :: "element \<Rightarrow> element list" where
  "iter (Element t as tx cs) = Element t as tx cs # concat (map iter cs)"

definition descendants :: "element \<Rightarrow> element list" where
  "descendants elem = concat (map iter (children elem))"

subsection \<open>ElementPath: the tokenizer\<close>

type_synonym token = "string \<times> string"

definition tag_char :: "char \<Rightarrow> bool" where
  "tag_char c = (c \<notin> set ''/[]()@!='' \<and> \<not> isspace c)"

text \<open>The second group of \<^verbatim>\<open>xpath_tokenizer_re\<close>,
  \<^verbatim>\<open>(?:\{[^}]+\})?[^/\[\]\(\)@!=\s]+\<close>, matched at the start of \<open>s\<close> (empty when it
  does not match).\<close>

definition match_tag :: "string \<Rightarrow> string" where
  "match_tag s =
     (case s of
        [] \<Rightarrow> []
      | c # cs \<Rightarrow>
          (let ns = takeWhile (\<lambda>x. x \<noteq> CHR ''}'') cs;
               rest = dropWhile (\<lambda>x. x \<noteq> CHR ''}'') cs
           in if c = CHR ''{'' \<and> ns \<noteq> [] \<and> rest \<noteq> [] \<and> takeWhile tag_char (tl rest) \<noteq> []
              then c # ns @ CHR ''}'' # takeWhile tag_char (tl rest)
              else takeWhile tag_char s))"

text \<open>One match of \<^verbatim>\<open>xpath_tokenizer_re\<close> at the start of \<open>s\<close>: the pair of groups and
  the length of the match. The alternatives are tried in the order of the pattern.\<close>

definition match_token :: "string \<Rightarrow> (token \<times> nat) option" where
  "match_token s =
     (case s of
        [] \<Rightarrow> None
      | c # cs \<Rightarrow>
          if (c = CHR 0x27 \<or> c = CHR 0x22) \<and> c \<in> set cs
          then (let body = takeWhile (\<lambda>x. x \<noteq> c) cs
                in Some ((c # body @ [c], []), length body + 2))
          else if prefix ''::'' s then Some ((''::'', []), 2)
          else if prefix ''//'' s then Some ((''//'', []), 2)
          else if c = CHR ''/'' then Some ((''/'', []), 1)
          else if prefix ''..'' s then Some ((''..'', []), 2)
          else if prefix ''()'' s then Some ((''()'', []), 2)
          else if prefix ''!='' s then Some ((''!='', []), 2)
          else if c \<in> set ''/.*:[]()@='' then Some (([c], []), 1)
          else if match_tag s \<noteq> [] then Some (([], match_tag s), length (match_tag s))
          else if isspace c then Some (([], []), length (takeWhile isspace s))
          else None)"

text \<open>\<^verbatim>\<open>xpath_tokenizer_re.findall(pattern)\<close>: scan from the left, skipping a character
  where nothing matches.\<close>

function xpath_tokens :: "string \<Rightarrow> token list" where
  "xpath_tokens [] = []"
| "xpath_tokens (c # cs) =
     (case match_token (c # cs) of
        None \<Rightarrow> xpath_tokens cs
      | Some (tok, n) \<Rightarrow> tok # xpath_tokens (drop (n - 1) cs))"
  by pat_completeness auto
termination
  by (relation "measure length") auto

text \<open>\<^verbatim>\<open>xpath_tokenizer(pattern, None)\<close>: the generator's items in order; an item is the
  exception it raises there (a prefixed tag with no prefix map).\<close>

definition xpath_tokenizer :: "string \<Rightarrow> (py_error + token) list" where
  "xpath_tokenizer pattern =
     map (\<lambda>(ttype, tg).
            if tg \<noteq> [] \<and> hd tg \<noteq> CHR ''{'' \<and> CHR '':'' \<in> set tg
            then Inl SyntaxError else Inr (ttype, tg))
         (xpath_tokens pattern)"

subsection \<open>ElementPath: selectors\<close>

datatype step = Child string | Star | Self | Descendant string | NotCallable

text \<open>The table \<^verbatim>\<open>ops\<close> for the steps that read no further token. \<^const>\<open>NotCallable\<close>
  is the \<^verbatim>\<open>None\<close> that \<^verbatim>\<open>prepare_descendant\<close> returns at the end of the tokens.\<close>

definition ops :: "token \<Rightarrow> py_error + step" where
  "ops token =
     (if fst token = [] then Inr (Child (snd token))
      else if fst token = ''*'' then Inr Star
      else if fst token = ''.'' then Inr Self
      else if fst token = ''..'' \<or> fst token = ''['' then Inl Unmodelled
      else Inl KeyError)"

text \<open>The loop of \<^verbatim>\<open>iterfind\<close> that builds the selector: \<open>compile_selector\<close> is entered
  with the current token at the head, \<open>next_step\<close> after a selector was appended.\<close>

fun compile_selector :: "(py_error + token) list \<Rightarrow> py_error + step list"
  and next_step :: "step \<Rightarrow> (py_error + token) list \<Rightarrow> py_error + step list" where
  "compile_selector [] = Inr []"
| "compile_selector (Inl e # rest) = Inl e"
| "compile_selector (Inr token # rest) =
     (if fst token = ''//'' then
        (case rest of
           [] \<Rightarrow> next_step NotCallable []
         | Inl e # _ \<Rightarrow> Inl e
         | Inr t # rest' \<Rightarrow>
             if fst t = ''*'' then next_step (Descendant ''*'') rest'
             else if fst t = [] then next_step (Descendant (snd t)) rest'
             else Inl SyntaxError)
      else (case ops token of Inl e \<Rightarrow> Inl e | Inr s \<Rightarrow> next_step s rest))"
| "next_step s [] = Inr [s]"
| "next_step s (Inl e # rest) = Inl e"
| "next_step s (Inr token # rest) =
     (if fst token = ''/'' then
        (case rest of
           [] \<Rightarrow> Inr [s]
         | _ \<Rightarrow> map_sum id (Cons s) (compile_selector rest))
      else map_sum id (Cons s) (compile_selector (Inr token # rest)))"

definition is_wildcard_tag :: "string \<Rightarrow> bool" where
  "is_wildcard_tag tg = (take 3 tg = ''{*}'' \<or> drop (length tg - 2) tg = ''}*'')"

text \<open>\<^verbatim>\<open>_prepare_tag\<close>, for a tag that \<^const>\<open>is_wildcard_tag\<close> accepts (its last
  branch, a \<^verbatim>\<open>RuntimeError\<close>, is then out of reach).\<close>

definition prepare_tag :: "string \<Rightarrow> element list \<Rightarrow> py_error + element list" where
  "prepare_tag tg result =
     (if tg = ''{*}*'' then Inr result
      else if tg = ''{}*'' then
        (if \<exists>elem \<in> set result. tag elem = [] then Inl IndexError
         else Inr (filter (\<lambda>elem. hd (tag elem) \<noteq> CHR ''{'') result))
      else if take 3 tg = ''{*}'' then
        (let suffix = drop 2 tg; tg' = drop 3 tg
         in Inr (filter (\<lambda>elem. tag elem = tg'
                   \<or> drop (length (tag elem) - length suffix) (tag elem) = suffix) result))
      else
        (let ns = take (length tg - 1) tg
         in Inr (filter (\<lambda>elem. take (length ns) (tag elem) = ns) result)))"

fun select :: "step \<Rightarrow> element list \<Rightarrow> py_error + element list" where
  "select (Child tg) result =
     (if is_wildcard_tag tg then prepare_tag tg (concat (map children result))
      else (let tg' = (if take 2 tg = ''{}'' then drop 2 tg else tg)
            in Inr (filter (\<lambda>e. tag e = tg') (concat (map children result)))))"
| "select Star result = Inr (concat (map children result))"
| "select Self result = Inr result"
| "select (Descendant tg) result =
     (if is_wildcard_tag tg then prepare_tag tg (concat (map descendants result))
      else (let tg' = (if take 2 tg = ''{}'' then drop 2 tg else tg)
            in Inr (filter (\<lambda>e. tg' = ''*'' \<or> tag e = tg') (concat (map descendants result)))))"
| "select NotCallable result = Inl TypeError"

fun run_selector :: "step list \<Rightarrow> element list \<Rightarrow> py_error + element list" where
  "run_selector [] result = Inr result"
| "run_selector (s # ss) result =
     (case select s result of Inl e \<Rightarrow> Inl e | Inr result' \<Rightarrow> run_selector ss result')"

text \<open>\<^verbatim>\<open>iterfind(elem, path)\<close>; \<open>Inr None\<close> is its bare \<^verbatim>\<open>return\<close> on a path with no
  token. Calling the \<^verbatim>\<open>None\<close> selector fails while the chain of generators is built,
  before any of them runs.\<close>

definition iterfind :: "element \<Rightarrow> string \<Rightarrow> py_error + element list option" where
  "iterfind elem path0 =
     (let path = (if path0 \<noteq> [] \<and> last path0 = CHR ''/'' then path0 @ ''*'' else path0)
      in if take 1 path = ''/'' then Inl SyntaxError
         else (case xpath_tokenizer path of
                 [] \<Rightarrow> Inr None
               | toks \<Rightarrow>
                   (case compile_selector toks of
                      Inl e \<Rightarrow> Inl e
                    | Inr selector \<Rightarrow>
                        if NotCallable \<in> set selector then Inl TypeError
                        else map_sum id Some (run_selector selector [elem]))))"

text \<open>\<^verbatim>\<open>checkpath\<close> of CPython's accelerated \<^verbatim>\<open>Element\<close>: does the string hold a path
  character outside braces, or start as a wildcard tag?\<close>

fun checkpath_loop :: "bool \<Rightarrow> string \<Rightarrow> bool" where
  "checkpath_loop check [] = False"
| "checkpath_loop check (ch # rest) =
     (if ch = CHR ''{'' then checkpath_loop False rest
      else if ch = CHR ''}'' then checkpath_loop True rest
      else if check \<and> ch \<in> set ''/*[@.'' then True
      else checkpath_loop check rest)"

definition checkpath :: "string \<Rightarrow> bool" where
  "checkpath tg =
     (if length tg \<ge> 3 \<and> tg ! 0 = CHR ''{''
         \<and> (tg ! 1 = CHR ''}'' \<or> (tg ! 1 = CHR ''*'' \<and> tg ! 2 = CHR ''}''))
      then True else checkpath_loop True tg)"

text \<open>\<^verbatim>\<open>root.findall(path)\<close>: a plain tag is compared with the children directly,
  anything else goes to \<^verbatim>\<open>ElementPath.findall\<close>, which is \<^verbatim>\<open>list(iterfind(...))\<close>.\<close>

definition findall :: "element \<Rightarrow> string \<Rightarrow> py_error + element list" where
  "findall elem path =
     (if checkpath path then
        (case iterfind elem path of
           Inl e \<Rightarrow> Inl e
         | Inr None \<Rightarrow> Inl TypeError
         | Inr (Some result) \<Rightarrow> Inr result)
      else Inr (filter (\<lambda>item. tag item = path) (children elem)))"

section \<open>Path Extractor (utils.py)\<close>

text \<open>\<^verbatim>\<open>get_xpath\<close>, the inner function of \<^verbatim>\<open>extract_xml_tags\<close>. A Python string or
  \<^verbatim>\<open>None\<close> used as a condition is true when it is a non-empty string.\<close>

fun get_xpath :: "element \<Rightarrow> string \<Rightarrow> string list" where
  "get_xpath (Element t as tx cs) current_path =
     (let path = (if current_path \<noteq> [] then current_path @ ''/'' @ t else t)
      in (if length cs = 0 \<and> tx \<noteq> None \<and> tx \<noteq> Some [] \<and> strip (the tx) \<noteq> []
          then [path] else [])
         @ map (\<lambda>attr_name. path @ ''/@'' @ attr_name) (map fst as)
         @ concat (map (\<lambda>child. get_xpath child path) cs))"

text \<open>\<^verbatim>\<open>extract_xml_tags\<close>: the body of the \<^verbatim>\<open>try\<close>, and \<^verbatim>\<open>[]\<close> from the handler of
  \<^verbatim>\<open>except Exception\<close>. \<^verbatim>\<open>sorted(list(set(all_paths)))\<close> is the sorted list without
  duplicates.\<close>

definition extract_xml_tags :: "xml_file \<Rightarrow> string list" where
  "extract_xml_tags xml_file =
     (case ET_parse xml_file of
        Inl e \<Rightarrow> []
      | Inr root \<Rightarrow> sort (remdups (get_xpath root [])))"

section \<open>Tables (pandas)\<close>

text \<open>
  A \<^verbatim>\<open>DataFrame\<close> with a \<^verbatim>\<open>RangeIndex\<close>: the number of rows (the length of the index) and
  the columns in order, each with its values. \<^verbatim>\<open>len(df)\<close> is \<open>nrows\<close>.
\<close>

record dataframe =
  nrows :: nat
  columns :: "(string \<times> pyobj list) list"

text \<open>\<^verbatim>\<open>pd.DataFrame(d)\<close> for a dictionary of lists (a \<^verbatim>\<open>ValueError\<close> when the lists
  differ in length) and \<^verbatim>\<open>pd.DataFrame()\<close>.\<close>

definition DataFrame :: "(string \<times> pyobj list) list \<Rightarrow> py_error + dataframe" where
  "DataFrame d =
     (case d of
        [] \<Rightarrow> Inr \<lparr>nrows = 0, columns = []\<rparr>
      | (k, v) # rest \<Rightarrow>
          if list_all (\<lambda>(k', v'). length v' = length v) rest
          then Inr \<lparr>nrows = length v, columns = d\<rparr>
          else Inl ValueError)"

definition DataFrame_empty :: dataframe where
  "DataFrame_empty = \<lparr>nrows = 0, columns = []\<rparr>"

text \<open>\<^verbatim>\<open>df.empty\<close>: one of the two axes has length 0.\<close>

definition empty :: "dataframe \<Rightarrow> bool" where
  "empty df = (nrows df = 0 \<or> columns df = [])"

text \<open>\<^verbatim>\<open>df.reindex(pd.RangeIndex(start=0, stop=target_rows, step=1))\<close>: the rows with a
  label below \<open>target_rows\<close>, and \<^verbatim>\<open>nan\<close> in every row the frame did not have.\<close>

definition reindex :: "dataframe \<Rightarrow> nat \<Rightarrow> dataframe" where
  "reindex df target_rows =
     \<lparr>nrows = target_rows,
      columns = map (\<lambda>(c, vals). (c, take target_rows (vals @ replicate (target_rows - length vals) NaN)))
                  (columns df)\<rparr>"

text \<open>\<^verbatim>\<open>df[col] = series\<close> for a column the frame does not have yet. A frame with an empty
  index first takes the index of a non-empty series (its own columns are filled with
  \<^verbatim>\<open>nan\<close>); the series is then aligned with the index of the frame.\<close>

definition setitem :: "dataframe \<Rightarrow> string \<Rightarrow> pyobj list \<Rightarrow> dataframe" where
  "setitem df col series =
     (let df' = (if nrows df = 0 \<and> length series > 0 then reindex df (length series) else df)
      in \<lparr>nrows = nrows df',
          columns = AList.update col
            (take (nrows df') (series @ replicate (nrows df' - length series) NaN))
            (columns df')\<rparr>)"

section \<open>Value Extractor (process.py)\<close>

text \<open>Lines 48 to 55 and again 59 to 64 of the source: the path handed to
  \<^verbatim>\<open>root.findall\<close>.\<close>

definition path_for_findall :: "string \<Rightarrow> string \<Rightarrow> string" where
  "path_for_findall root_tag p =
     (if p = root_tag then ''.''
      else if prefix (root_tag @ ''/'') p then drop (length root_tag + 1) p
      else p)"

text \<open>The body of the loop over the columns of a sheet, lines 38 to 75: the values of
  one path. Unpacking the result of \<^verbatim>\<open>rsplit\<close> into two names raises \<^verbatim>\<open>ValueError\<close>
  when the path has an \<^verbatim>\<open>@\<close> but no \<^verbatim>\<open>/@\<close>.\<close>

definition column_values :: "element \<Rightarrow> string \<Rightarrow> py_error + pyobj list" where
  "column_values root xml_tag_path =
     (let is_attribute_extraction = (CHR ''@'' \<in> set xml_tag_path)
      in if is_attribute_extraction then
           (case rsplit_attr xml_tag_path of
              None \<Rightarrow> Inl ValueError
            | Some (base_xml_path, attr_name) \<Rightarrow>
                (case findall root (path_for_findall (tag root) base_xml_path) of
                   Inl e \<Rightarrow> Inl e
                 | Inr find_elements \<Rightarrow>
                     Inr (map (\<lambda>elem. case map_of (attrib elem) attr_name of
                                        None \<Rightarrow> PyNone | Some v \<Rightarrow> PyStr v)
                              find_elements)))
         else
           (case findall root (path_for_findall (tag root) xml_tag_path) of
              Inl e \<Rightarrow> Inl e
            | Inr find_elements \<Rightarrow>
                Inr (map (\<lambda>elem. case etext elem of None \<Rightarrow> PyStr [] | Some t \<Rightarrow> PyStr t)
                         find_elements)))"

text \<open>The loop over \<^verbatim>\<open>sheet_mappings.items()\<close>, with \<^verbatim>\<open>raw_sheet_data\<close> and
  \<^verbatim>\<open>max_len\<close> as accumulators.\<close>

fun sheet_columns :: "element \<Rightarrow> (string \<times> string) list \<Rightarrow> (string \<times> pyobj list) list \<Rightarrow> nat
    \<Rightarrow> py_error + ((string \<times> pyobj list) list \<times> nat)" where
  "sheet_columns root [] raw_sheet_data max_len = Inr (raw_sheet_data, max_len)"
| "sheet_columns root ((excel_col, xml_tag_path) # rest) raw_sheet_data max_len =
     (case column_values root xml_tag_path of
        Inl e \<Rightarrow> Inl e
      | Inr vals \<Rightarrow>
          sheet_columns root rest (AList.update excel_col vals raw_sheet_data)
            (if length vals > max_len then length vals else max_len))"

text \<open>Lines 83 to 86: every list padded with \<^verbatim>\<open>None\<close> and cut to \<open>max_len\<close>.\<close>

definition aligned_sheet_data :: "(string \<times> pyobj list) list \<Rightarrow> nat \<Rightarrow> (string \<times> pyobj list) list" where
  "aligned_sheet_data raw_sheet_data max_len =
     map (\<lambda>(col_name, val_list).
            (col_name, take max_len (val_list @ replicate (max_len - length val_list) PyNone)))
         raw_sheet_data"

text \<open>The loop over \<^verbatim>\<open>mappings_for_this_xml.items()\<close>, with \<^verbatim>\<open>data_to_write_to_excel\<close>
  as accumulator.\<close>

fun extract_sheets :: "element \<Rightarrow> (string \<times> (string \<times> string) list) list
    \<Rightarrow> (string \<times> dataframe) list \<Rightarrow> py_error + (string \<times> dataframe) list" where
  "extract_sheets root [] data_to_write_to_excel = Inr data_to_write_to_excel"
| "extract_sheets root ((sheet_name, sheet_mappings) # rest) data_to_write_to_excel =
     (case sheet_columns root sheet_mappings [] 0 of
        Inl e \<Rightarrow> Inl e
      | Inr (raw_sheet_data, max_len) \<Rightarrow>
          (let aligned = aligned_sheet_data raw_sheet_data max_len
           in case (if aligned \<noteq> [] then DataFrame aligned else Inr DataFrame_empty) of
                Inl e \<Rightarrow> Inl e
              | Inr df \<Rightarrow>
                  extract_sheets root rest (AList.update sheet_name df data_to_write_to_excel)))"

definition extract_data_from_one_xml :: "xml_file \<Rightarrow> (string \<times> (string \<times> string) list) list
    \<Rightarrow> py_error + (string \<times> dataframe) list" where
  "extract_data_from_one_xml xml_file_path mappings_for_this_xml =
     (case ET_parse xml_file_path of
        Inl e \<Rightarrow> Inl e
      | Inr root \<Rightarrow> extract_sheets root mappings_for_this_xml [])"

section \<open>Row alignment and merge of the sources (app.py)\<close>

text \<open>Lines 250 to 259: the frame of one sheet of one source, brought to the number of
  rows recorded for the sheet in \<^verbatim>\<open>max_rows_per_sheet\<close>.\<close>

definition reindexed_sheet :: "(string \<times> nat) list \<Rightarrow> string \<Rightarrow> dataframe \<Rightarrow> dataframe" where
  "reindexed_sheet max_rows_per_sheet sheet_name df_original =
     (case map_of max_rows_per_sheet sheet_name of
        Some target_rows \<Rightarrow>
          if nrows df_original < target_rows then reindex df_original target_rows
          else df_original
      | None \<Rightarrow> df_original)"

definition reindexed_data_for_this_xml :: "(string \<times> nat) list \<Rightarrow> (string \<times> dataframe) list
    \<Rightarrow> (string \<times> dataframe) list" where
  "reindexed_data_for_this_xml max_rows_per_sheet data_for_this_xml =
     fold (\<lambda>(sheet_name, df_original).
             AList.update sheet_name (reindexed_sheet max_rows_per_sheet sheet_name df_original))
          data_for_this_xml []"

text \<open>Lines 270 to 272: the columns of the frame of the current source that the
  existing frame does not have are added to it.\<close>

definition add_new_columns :: "dataframe \<Rightarrow> dataframe \<Rightarrow> dataframe" where
  "add_new_columns df_existing df_from_current_source =
     fold (\<lambda>(col_to_add, series) df.
             if col_to_add \<notin> set (map fst (columns df)) then setitem df col_to_add series else df)
          (columns df_from_current_source) df_existing"

text \<open>Lines 265 to 273: one sheet of one source enters the accumulator.\<close>

definition merge_sheet :: "string \<times> dataframe \<Rightarrow> (string \<times> dataframe) list
    \<Rightarrow> (string \<times> dataframe) list" where
  "merge_sheet entry final =
     (case entry of (sheet_name, df_from_current_source) \<Rightarrow>
        (case map_of final sheet_name of
           None \<Rightarrow> AList.update sheet_name df_from_current_source final
         | Some df_existing \<Rightarrow>
             AList.update sheet_name (add_new_columns df_existing df_from_current_source) final))"

text \<open>Lines 263 to 273: the sources in order, the sheets of each in order.\<close>

definition final_data_to_write_by_sheet :: "(string \<times> dataframe) list list
    \<Rightarrow> (string \<times> dataframe) list" where
  "final_data_to_write_by_sheet all_extracted_data_by_sheet_and_source =
     fold (\<lambda>data_from_one_source final. fold merge_sheet data_from_one_source final)
          all_extracted_data_by_sheet_and_source []"

section \<open>Template Writer (process.py, openpyxl)\<close>

text \<open>
  A worksheet is its dictionary of cells, from (row, column) to the value of the cell;
  rows and columns count from 1. A cell that is not in the dictionary reads as
  \<^verbatim>\<open>None\<close>. A workbook is the list of its sheets by title (titles are unique in a
  workbook). Styles, merged cells and the conversion of a value on assignment are left
  out.
\<close>

type_synonym worksheet = "((nat \<times> nat) \<times> pyobj) list"

type_synonym workbook = "(string \<times> worksheet) list"

definition cell_value :: "worksheet \<Rightarrow> nat \<Rightarrow> nat \<Rightarrow> pyobj" where
  "cell_value ws row col = (case map_of ws (row, col) of None \<Rightarrow> PyNone | Some v \<Rightarrow> v)"

definition max_column :: "worksheet \<Rightarrow> nat" where
  "max_column ws = (case map (snd \<circ> fst) ws of [] \<Rightarrow> 1 | c # cs \<Rightarrow> fold max cs c)"

text \<open>\<^verbatim>\<open>ws.cell(row, column, value)\<close>: the cell is created when it does not exist, and a
  value other than \<^verbatim>\<open>None\<close> is stored in it.\<close>

definition get_cell :: "worksheet \<Rightarrow> nat \<Rightarrow> nat \<Rightarrow> worksheet" where
  "get_cell ws row col = (if map_of ws (row, col) = None then ws @ [((row, col), PyNone)] else ws)"

definition cell :: "worksheet \<Rightarrow> nat \<Rightarrow> nat \<Rightarrow> pyobj \<Rightarrow> worksheet" where
  "cell ws row col v =
     (let ws' = get_cell ws row col
      in if v \<noteq> PyNone then AList.update (row, col) v ws' else ws')"

text \<open>\<^verbatim>\<open>worksheet[1]\<close> walks the columns 1 to \<^verbatim>\<open>max_column\<close> of row 1 (creating the
  cells that do not exist); the header row is the list of their values.\<close>

definition first_row :: "worksheet \<Rightarrow> worksheet" where
  "first_row ws = fold (\<lambda>col w. get_cell w 1 col) [1..<max_column ws + 1] ws"

definition header_row_values :: "worksheet \<Rightarrow> pyobj list" where
  "header_row_values ws = map (\<lambda>col. cell_value ws 1 col) [1..<max_column ws + 1]"

text \<open>Line 122: a later column with the same header replaces the index stored for
  it.\<close>

definition header_index_map :: "pyobj list \<Rightarrow> (pyobj \<times> nat) list" where
  "header_index_map hs =
     fold (\<lambda>(col_idx, header) m. if header \<noteq> PyNone then AList.update header col_idx m else m)
          (zip [1..<length hs + 1] hs) []"

text \<open>Lines 130 to 132.\<close>

fun write_values :: "worksheet \<Rightarrow> nat \<Rightarrow> nat \<Rightarrow> pyobj list \<Rightarrow> worksheet" where
  "write_values ws col_idx row_idx_df [] = ws"
| "write_values ws col_idx row_idx_df (v # vs) =
     write_values (cell ws (row_idx_df + 2) col_idx v) col_idx (Suc row_idx_df) vs"

text \<open>Lines 116 to 134: one sheet of the template for which there is a frame.\<close>

definition write_sheet :: "worksheet \<Rightarrow> dataframe \<Rightarrow> worksheet" where
  "write_sheet worksheet df_for_sheet =
     (if empty df_for_sheet then worksheet
      else (let hmap = header_index_map (header_row_values worksheet)
            in fold (\<lambda>(excel_col_header, series) ws.
                       case map_of hmap (PyStr excel_col_header) of
                         Some col_idx \<Rightarrow> write_values ws col_idx 0 series
                       | None \<Rightarrow> ws)
                    (columns df_for_sheet) (first_row worksheet)))"

text \<open>\<^verbatim>\<open>write_dataframes_to_excel\<close>: the loaded template after the loop over its sheet
  names, which is the workbook saved at \<^verbatim>\<open>output_path\<close>.\<close>

definition write_dataframes_to_excel :: "workbook \<Rightarrow> (string \<times> dataframe) list \<Rightarrow> workbook" where
  "write_dataframes_to_excel workbook data_frames_by_sheet =
     map (\<lambda>(sheet_name_in_template, worksheet).
            case map_of data_frames_by_sheet sheet_name_in_template of
              Some df_for_sheet \<Rightarrow> (sheet_name_in_template, write_sheet worksheet df_for_sheet)
            | None \<Rightarrow> (sheet_name_in_template, worksheet))
         workbook"

section \<open>Notions used to state the properties\<close>

text \<open>The elements of a document in document order, each with the path that
  \<^const>\<open>get_xpath\<close> builds for it.\<close>

fun walk :: "element \<Rightarrow> string \<Rightarrow> (string \<times> element) list" where
  "walk (Element t as tx cs) current_path =
     (let path = (if current_path \<noteq> [] then current_path @ ''/'' @ t else t)
      in (path, Element t as tx cs) # concat (map (\<lambda>child. walk child path) cs))"

text \<open>The specification's leaf: no child element, and text that is not empty once
  the white space around it is removed.\<close>

definition leaf_with_text :: "element \<Rightarrow> bool" where
  "leaf_with_text e =
     (children e = [] \<and> (case etext e of None \<Rightarrow> False | Some s \<Rightarrow> strip s \<noteq> []))"

text \<open>What the specification lets one element at one path contribute: its own path
  when it is such a leaf, and one path for each of its attributes.\<close>

definition emitted :: "string \<times> element \<Rightarrow> string list" where
  "emitted pe =
     (if leaf_with_text (snd pe) then [fst pe] else [])
     @ map (\<lambda>attr_name. fst pe @ ''/@'' @ attr_name) (map fst (attrib (snd pe)))"

text \<open>Names that use none of the characters of the path syntax: no
  \<^verbatim>\<open>/ [ ] ( ) @ ! = { } : *\<close>, no quote and no white space, and no dot in the first
  place. Every XML name made of ASCII letters, digits, \<^verbatim>\<open>_\<close>, \<^verbatim>\<open>-\<close> and \<^verbatim>\<open>.\<close> is such a
  name.\<close>

definition name_char :: "char \<Rightarrow> bool" where
  "name_char c = (tag_char c \<and> c \<notin> set ''{}:*'' \<and> c \<noteq> CHR 0x27 \<and> c \<noteq> CHR 0x22)"

definition plain_name :: "string \<Rightarrow> bool" where
  "plain_name t = (t \<noteq> [] \<and> list_all name_char t \<and> hd t \<noteq> CHR ''.'')"

text \<open>The tags that ElementTree gives to elements: such a name, or, for an element in a
  namespace, \<^verbatim>\<open>{uri}name\<close> with a non-empty URI without \<^verbatim>\<open>}\<close>. The URI is restricted
  in one way only: it holds no \<^verbatim>\<open>@\<close>.\<close>

definition qualified_name :: "string \<Rightarrow> bool" where
  "qualified_name t =
     (case t of
        [] \<Rightarrow> False
      | c # cs \<Rightarrow>
          if c = CHR ''{'' then
            (let uri = takeWhile (\<lambda>x. x \<noteq> CHR ''}'') cs;
                 rest = dropWhile (\<lambda>x. x \<noteq> CHR ''}'') cs
             in uri \<noteq> [] \<and> CHR ''@'' \<notin> set uri \<and> rest \<noteq> [] \<and> plain_name (tl rest))
          else plain_name t)"

text \<open>A document in which every tag is such a tag and no attribute name holds an
  \<^verbatim>\<open>@\<close> (an attribute name may be in a namespace too).\<close>

fun parsed_names :: "element \<Rightarrow> bool" where
  "parsed_names (Element t as tx cs) =
     (qualified_name t \<and> list_all (\<lambda>a. CHR ''@'' \<notin> set (fst a)) as \<and> list_all parsed_names cs)"

text \<open>Tags joined by \<^verbatim>\<open>/\<close>, and the tokens of such a path.\<close>

fun join_path :: "string list \<Rightarrow> string" where
  "join_path [] = []"
| "join_path [t] = t"
| "join_path (t # ts) = t @ ''/'' @ join_path ts"

fun path_tokens :: "string list \<Rightarrow> token list" where
  "path_tokens [] = []"
| "path_tokens [t] = [([], t)]"
| "path_tokens (t # ts) = ([], t) # (''/'', []) # path_tokens ts"

text \<open>A series aligned with an index of \<open>n\<close> rows, as pandas does on assignment: cut
  to \<open>n\<close> values, or filled with \<^verbatim>\<open>nan\<close>.\<close>

definition pad_to :: "nat \<Rightarrow> pyobj list \<Rightarrow> pyobj list" where
  "pad_to n vals = take n (vals @ replicate (n - length vals) NaN)"

text \<open>What every \<^verbatim>\<open>DataFrame\<close> built from a dictionary satisfies: the column names are
  distinct and every column has as many values as the frame has rows. The tables of one
  source are a dictionary, so its sheet names are distinct.\<close>

definition wf_frame :: "dataframe \<Rightarrow> bool" where
  "wf_frame df = (distinct (map fst (columns df))
     \<and> list_all (\<lambda>cv. length (snd cv) = nrows df) (columns df))"

definition wf_source :: "(string \<times> dataframe) list \<Rightarrow> bool" where
  "wf_source d = (distinct (map fst d) \<and> list_all (\<lambda>sd. wf_frame (snd sd)) d)"

text \<open>The specification's first writer: the values of column \<open>c\<close> of sheet \<open>s\<close> in the
  first source, in processing order, whose table for \<open>s\<close> has that column.\<close>

fun first_column :: "(string \<times> dataframe) list list \<Rightarrow> string \<Rightarrow> string \<Rightarrow> pyobj list option" where
  "first_column [] s c = None"
| "first_column (d # ds) s c =
     (case map_of d s of
        None \<Rightarrow> first_column ds s c
      | Some df \<Rightarrow>
          (case map_of (columns df) c of
             None \<Rightarrow> first_column ds s c
           | Some v \<Rightarrow> Some v))"

text \<open>The specification's column union for sheet \<open>s\<close>: source after source, the column
  names that are not yet present are appended.\<close>

definition union_columns :: "(string \<times> dataframe) list list \<Rightarrow> string \<Rightarrow> string list" where
  "union_columns all s =
     fold (\<lambda>d acc. case map_of d s of
                     None \<Rightarrow> acc
                   | Some df \<Rightarrow> acc @ filter (\<lambda>c. c \<notin> set acc) (map fst (columns df)))
          all []"

section \<open>Path Extractor: properties\<close>

lemma strip_Nil: "strip [] = []"
  by (simp add: strip_def)

lemma get_xpath_walk: "get_xpath e cur = concat (map emitted (walk e cur))"
proof (induction e cur rule: get_xpath.induct)
  case (1 t as tx cs current_path)
  define path where "path = (if current_path \<noteq> [] then current_path @ ''/'' @ t else t)"
  have IH: "\<And>c. c \<in> set cs \<Longrightarrow> get_xpath c path = concat (map emitted (walk c path))"
    using 1 by (simp add: path_def)
  have kids: "concat (map (\<lambda>child. get_xpath child path) cs)
      = concat (map emitted (concat (map (\<lambda>child. walk child path) cs)))"
    using IH by (induction cs) auto
  have own: "(if length cs = 0 \<and> tx \<noteq> None \<and> tx \<noteq> Some [] \<and> strip (the tx) \<noteq> []
              then [path] else [])
      @ map (\<lambda>attr_name. path @ ''/@'' @ attr_name) (map fst as)
      = emitted (path, Element t as tx cs)"
    by (cases tx) (auto simp: emitted_def leaf_with_text_def strip_Nil)
  show ?case
    using kids own by (simp add: Let_def path_def [symmetric])
qed


section \<open>Documents that are not well-formed\<close>

text \<open>
  C1, as the code has it. For a file that is not well-formed XML, \<^verbatim>\<open>extract_xml_tags\<close>
  returns the empty list of paths, and \<^verbatim>\<open>extract_data_from_one_xml\<close> raises the parse
  error to its caller, whatever the mappings: it has no handler of its own.
\<close>

theorem not_well_formed_paths_empty_values_raise:
  "extract_xml_tags NotWellFormed = []
   \<and> extract_data_from_one_xml NotWellFormed mappings_for_this_xml = Inl ParseError"
  by (simp add: extract_xml_tags_def extract_data_from_one_xml_def)

text \<open>The claim as stated fails: on such a file the Value Extractor does not return the
  empty map from sheets to tables.\<close>

theorem not_well_formed_values_counterexample:
  "extract_data_from_one_xml NotWellFormed [(''Data'', [(''Name'', ''people/person/name'')])]
     \<noteq> Inr []"
  by (simp add: extract_data_from_one_xml_def)

section \<open>Row alignment\<close>

lemma take_pad: "length vals \<le> target \<Longrightarrow>
    take target (vals @ replicate (target - length vals) x) = vals @ replicate (target - length vals) x"
  by simp

lemma aligned_sheet_data_pad:
  "list_all (\<lambda>(c, vals). length vals \<le> target) tbl \<Longrightarrow>
   aligned_sheet_data tbl target
     = map (\<lambda>(c, vals). (c, vals @ replicate (target - length vals) PyNone)) tbl"
  by (induction tbl) (auto simp: aligned_sheet_data_def)

lemma aligned_sheet_data_length:
  "list_all (\<lambda>(c, out). length out = max_len) (aligned_sheet_data tbl max_len)"
  by (induction tbl) (auto simp: aligned_sheet_data_def)

lemma reindex_pad:
  "list_all (\<lambda>(c, vals). length vals = nrows df) (columns df) \<Longrightarrow> nrows df \<le> target \<Longrightarrow>
   columns (reindex df target)
     = map (\<lambda>(c, vals). (c, vals @ replicate (target - length vals) NaN)) (columns df)"
  unfolding reindex_def by (induction "columns df") (auto simp: list_all_iff)

lemma reindexed_sheet_pad:
  assumes "list_all (\<lambda>(c, vals). length vals = nrows df) (columns df)"
    and "nrows df \<le> target" and "map_of max_rows s = Some target"
  shows "reindexed_sheet max_rows s df
     = \<lparr>nrows = target,
        columns = map (\<lambda>(c, vals). (c, vals @ replicate (target - length vals) NaN)) (columns df)\<rparr>"
proof (cases "nrows df < target")
  case True
  then show ?thesis
    using assms reindex_pad [of df target] by (simp add: reindexed_sheet_def reindex_def)
next
  case False
  then have eq: "nrows df = target" using assms(2) by simp
  have "map (\<lambda>(c, vals). (c, vals @ replicate (target - length vals) NaN)) (columns df) = columns df"
    using assms(1) eq by (induction "columns df") (auto simp: list_all_iff intro!: map_idI)
  then show ?thesis using False assms(3) eq by (simp add: reindexed_sheet_def)
qed

text \<open>
  C5. Row alignment, in both places where the code performs it: the padding of the
  columns of one sheet in \<^verbatim>\<open>extract_data_from_one_xml\<close> and the reindexing of the frame
  of a sheet in the export. For a target row count that is at least the length of every
  column, every resulting column has exactly that length and is the original column
  followed by absent values (\<^verbatim>\<open>None\<close> in the first place, \<^verbatim>\<open>nan\<close> in the second).
\<close>

theorem row_alignment:
  assumes "list_all (\<lambda>(c, vals). length vals \<le> target) tbl"
    and "list_all (\<lambda>(c, vals). length vals = nrows df) (columns df)"
    and "nrows df \<le> target" and "map_of max_rows_per_sheet sheet_name = Some target"
  shows "aligned_sheet_data tbl target
           = map (\<lambda>(c, vals). (c, vals @ replicate (target - length vals) PyNone)) tbl
    \<and> list_all (\<lambda>(c, out). length out = target) (aligned_sheet_data tbl target)
    \<and> reindexed_sheet max_rows_per_sheet sheet_name df
           = \<lparr>nrows = target,
              columns = map (\<lambda>(c, vals). (c, vals @ replicate (target - length vals) NaN)) (columns df)\<rparr>
    \<and> list_all (\<lambda>(c, out). length out = target)
          (columns (reindexed_sheet max_rows_per_sheet sheet_name df))"
proof -
  have "list_all (\<lambda>(c, out). length out = target)
          (map (\<lambda>(c, vals). (c, vals @ replicate (target - length vals) NaN)) (columns df))"
    using assms(2,3) by (auto simp: list_all_iff)
  then show ?thesis
    using aligned_sheet_data_pad [OF assms(1)] aligned_sheet_data_length [of target tbl]
      reindexed_sheet_pad [OF assms(2,3,4)] by simp
qed

text \<open>The theorem at a table with columns of lengths 2 and 1 and at a frame of two
  rows, both aligned to three rows.\<close>

theorem row_alignment_witness:
  "aligned_sheet_data [(''Name'', [PyStr ''Alice'', PyStr ''Bob'']), (''Age'', [PyStr ''30''])] 3
     = [(''Name'', [PyStr ''Alice'', PyStr ''Bob'', PyNone]), (''Age'', [PyStr ''30'', PyNone, PyNone])]
   \<and> reindexed_sheet [(''Data'', 3)] ''Data''
        \<lparr>nrows = 2, columns = [(''Name'', [PyStr ''Alice'', PyStr ''Bob'']), (''Age'', [PyStr ''30'', PyNone])]\<rparr>
     = \<lparr>nrows = 3, columns = [(''Name'', [PyStr ''Alice'', PyStr ''Bob'', NaN]),
                              (''Age'', [PyStr ''30'', PyNone, NaN])]\<rparr>"
proof -
  let ?tbl = "[(''Name'', [PyStr ''Alice'', PyStr ''Bob'']), (''Age'', [PyStr ''30''])]"
  let ?df = "\<lparr>nrows = 2, columns = [(''Name'', [PyStr ''Alice'', PyStr ''Bob'']), (''Age'', [PyStr ''30'', PyNone])]\<rparr>"
  have h1: "list_all (\<lambda>(c, vals). length vals \<le> 3) ?tbl" by simp
  have h2: "list_all (\<lambda>(c, vals). length vals = nrows ?df) (columns ?df)" by simp
  have h3: "nrows ?df \<le> 3" by simp
  have h4: "map_of [(''Data'', 3::nat)] ''Data'' = Some 3" by simp
  show ?thesis
    using row_alignment [OF h1 h2 h3 h4] by (simp add: numeral_2_eq_2 numeral_3_eq_3)
qed
section \<open>What findall returns\<close>

lemma prefix_single_mem: "prefix [c] s \<Longrightarrow> c \<in> set s"
  by (auto simp: prefix_def)

lemma rsplit_attr_no_at: "CHR ''@'' \<notin> set s \<Longrightarrow> rsplit_attr s = None"
  by (induction s) (auto split: option.splits dest: prefix_single_mem)

lemma rsplit_attr_append:
  "CHR ''@'' \<notin> set attr_name \<Longrightarrow> rsplit_attr (base @ CHR ''/'' # CHR ''@'' # attr_name) = Some (base, attr_name)"
  by (induction base) (auto simp: rsplit_attr_no_at split: option.splits)











lemma column_values_attribute:
  assumes "CHR ''@'' \<notin> set attr_name"
    and "findall root (path_for_findall (tag root) base) = Inr found"
  shows "column_values root (base @ ''/@'' @ attr_name)
     = Inr (map (\<lambda>elem. case map_of (attrib elem) attr_name of None \<Rightarrow> PyNone | Some v \<Rightarrow> PyStr v) found)"
  using assms by (simp add: column_values_def rsplit_attr_append)

section \<open>A path that the traversal rejects\<close>

lemma sheet_columns_error:
  "(excel_col, p) \<in> set sheet_mappings \<Longrightarrow> column_values root p = Inl e \<Longrightarrow>
   \<exists>e'. sheet_columns root sheet_mappings raw max_len = Inl e'"
proof (induction sheet_mappings arbitrary: raw max_len)
  case Nil
  then show ?case by simp
next
  case (Cons a rest)
  obtain c q where a: "a = (c, q)" by (cases a)
  show ?case
  proof (cases "column_values root q")
    case (Inl e0)
    then show ?thesis by (simp add: a)
  next
    case (Inr vals)
    then have "q \<noteq> p" using Cons.prems(2) by auto
    then have "(excel_col, p) \<in> set rest" using Cons.prems(1) a by auto
    from Cons.IH [OF this Cons.prems(2)] show ?thesis by (simp add: a Inr)
  qed
qed

lemma extract_sheets_error:
  "(sheet_name, sheet_mappings) \<in> set mappings \<Longrightarrow> (excel_col, p) \<in> set sheet_mappings \<Longrightarrow>
   column_values root p = Inl e \<Longrightarrow>
   \<exists>e'. extract_sheets root mappings acc = Inl e'"
proof (induction mappings arbitrary: acc)
  case Nil
  then show ?case by simp
next
  case (Cons a rest)
  obtain s cols where a: "a = (s, cols)" by (cases a)
  show ?case
  proof (cases "sheet_columns root cols [] 0")
    case (Inl e0)
    then show ?thesis by (simp add: a)
  next
    case (Inr res)
    obtain raw ml where res: "res = (raw, ml)" by (cases res)
    have "(s, cols) \<noteq> (sheet_name, sheet_mappings)"
      using sheet_columns_error [OF Cons.prems(2,3), of "[]" 0] Inr by auto
    then have in_rest: "(sheet_name, sheet_mappings) \<in> set rest" using Cons.prems(1) a by auto
    from Cons.IH [OF in_rest Cons.prems(2,3)] show ?thesis
      by (auto simp: a Inr res Let_def split: sum.splits)
  qed
qed

lemma sheet_columns_ok:
  "\<forall>cp \<in> set sheet_mappings. \<exists>vals. column_values root (snd cp) = Inr vals \<Longrightarrow>
   \<exists>raw' max_len'. sheet_columns root sheet_mappings raw max_len = Inr (raw', max_len')"
proof (induction sheet_mappings arbitrary: raw max_len)
  case Nil
  then show ?case by simp
next
  case (Cons a rest)
  obtain c q where a: "a = (c, q)" by (cases a)
  obtain vals where vals: "column_values root q = Inr vals" using Cons.prems a by auto
  have "\<forall>cp \<in> set rest. \<exists>vals. column_values root (snd cp) = Inr vals" using Cons.prems by simp
  from Cons.IH [OF this] show ?case by (simp add: a vals)
qed

lemma DataFrame_aligned:
  "\<exists>df. (if aligned_sheet_data raw max_len \<noteq> [] then DataFrame (aligned_sheet_data raw max_len)
          else Inr DataFrame_empty) = Inr df"
proof (cases "aligned_sheet_data raw max_len")
  case Nil
  then show ?thesis by simp
next
  case (Cons a rest)
  obtain k v where a: "a = (k, v)" by (cases a)
  have "list_all (\<lambda>(c, out). length out = max_len) (a # rest)"
    using aligned_sheet_data_length [of max_len raw] Cons by simp
  then have "list_all (\<lambda>(k', v'). length v' = length v) rest"
    by (auto simp: a list_all_iff)
  then show ?thesis using Cons a by (simp add: DataFrame_def)
qed

lemma extract_sheets_ok:
  "\<forall>sm \<in> set mappings. \<forall>cp \<in> set (snd sm). \<exists>vals. column_values root (snd cp) = Inr vals \<Longrightarrow>
   \<exists>tables. extract_sheets root mappings acc = Inr tables"
proof (induction mappings arbitrary: acc)
  case Nil
  then show ?case by simp
next
  case (Cons a rest)
  obtain s cols where a: "a = (s, cols)" by (cases a)
  have "\<forall>cp \<in> set cols. \<exists>vals. column_values root (snd cp) = Inr vals" using Cons.prems a by auto
  from sheet_columns_ok [OF this, of "[]" 0]
  obtain raw ml where sc: "sheet_columns root cols [] 0 = Inr (raw, ml)" by blast
  obtain df where df: "(if aligned_sheet_data raw ml \<noteq> [] then DataFrame (aligned_sheet_data raw ml)
          else Inr DataFrame_empty) = Inr df"
    using DataFrame_aligned by blast
  have "\<forall>sm \<in> set rest. \<forall>cp \<in> set (snd sm). \<exists>vals. column_values root (snd cp) = Inr vals"
    using Cons.prems by simp
  from Cons.IH [OF this, of "AList.update s df acc"] show ?case
    using df by (simp add: a sc Let_def)
qed

text \<open>
  C2, as the code has it. \<^verbatim>\<open>extract_data_from_one_xml\<close> returns tables exactly when the
  extraction of every (column, path) pair of every sheet of the call succeeds. So when one
  pair raises (its search expression is rejected by \<^verbatim>\<open>root.findall\<close>, or the path
  cannot be split), the whole call raises and returns no table: the loops have no handler,
  and neither the other columns of the sheet nor the other sheets reach a result.
\<close>

theorem extraction_succeeds_iff_every_column_does:
  "(\<exists>tables. extract_data_from_one_xml (WellFormed root) mappings_for_this_xml = Inr tables)
     = (\<forall>sheet \<in> set mappings_for_this_xml. \<forall>column \<in> set (snd sheet).
          \<exists>vals. column_values root (snd column) = Inr vals)"
proof
  assume ok: "\<exists>tables. extract_data_from_one_xml (WellFormed root) mappings_for_this_xml = Inr tables"
  show "\<forall>sheet \<in> set mappings_for_this_xml. \<forall>column \<in> set (snd sheet).
          \<exists>vals. column_values root (snd column) = Inr vals"
  proof (intro ballI)
    fix sheet column
    assume s: "sheet \<in> set mappings_for_this_xml" and c: "column \<in> set (snd sheet)"
    show "\<exists>vals. column_values root (snd column) = Inr vals"
    proof (cases "column_values root (snd column)")
      case (Inr vals)
      then show ?thesis by blast
    next
      case (Inl e)
      have "(fst sheet, snd sheet) \<in> set mappings_for_this_xml" using s by simp
      moreover have "(fst column, snd column) \<in> set (snd sheet)" using c by simp
      ultimately obtain e' where "extract_sheets root mappings_for_this_xml [] = Inl e'"
        using extract_sheets_error [OF _ _ Inl] by blast
      then show ?thesis using ok by (simp add: extract_data_from_one_xml_def)
    qed
  qed
next
  assume "\<forall>sheet \<in> set mappings_for_this_xml. \<forall>column \<in> set (snd sheet).
          \<exists>vals. column_values root (snd column) = Inr vals"
  from extract_sheets_ok [OF this, of "[]"]
  show "\<exists>tables. extract_data_from_one_xml (WellFormed root) mappings_for_this_xml = Inr tables"
    by (simp add: extract_data_from_one_xml_def)
qed

text \<open>The theorem at the document \<^verbatim>\<open><r><a>1</a></r>\<close> and a sheet whose first
  column has the absolute path \<^verbatim>\<open>/x\<close>.\<close>

theorem extraction_succeeds_iff_witness:
  "column_values (Element ''r'' [] None [Element ''a'' [] (Some ''1'') []]) ''/x'' = Inl SyntaxError
   \<and> \<not> (\<exists>tables. extract_data_from_one_xml
          (WellFormed (Element ''r'' [] None [Element ''a'' [] (Some ''1'') []]))
          [(''S'', [(''A'', ''/x''), (''B'', ''r/a'')])] = Inr tables)"
proof -
  let ?root = "Element ''r'' [] None [Element ''a'' [] (Some ''1'') []]"
  have h: "column_values ?root ''/x'' = Inl SyntaxError" by code_simp
  have "\<not> (\<forall>sheet \<in> set [(''S'', [(''A'', ''/x''), (''B'', ''r/a'')])]. \<forall>column \<in> set (snd sheet).
          \<exists>vals. column_values ?root (snd column) = Inr vals)"
    using h by simp
  then show ?thesis
    using extraction_succeeds_iff_every_column_does [of ?root "[(''S'', [(''A'', ''/x''), (''B'', ''r/a'')])]"] h
    by blast
qed

text \<open>The claim as stated fails: with the same document, the sheet with the columns
  \<^verbatim>\<open>A: /x\<close> and \<^verbatim>\<open>B: r/a\<close> gives a \<^verbatim>\<open>SyntaxError\<close>, although column \<^verbatim>\<open>B\<close> alone is
  extracted without error.\<close>

theorem bad_path_counterexample:
  "extract_data_from_one_xml (WellFormed (Element ''r'' [] None [Element ''a'' [] (Some ''1'') []]))
      [(''S'', [(''A'', ''/x''), (''B'', ''r/a'')])] = Inl SyntaxError
   \<and> extract_data_from_one_xml (WellFormed (Element ''r'' [] None [Element ''a'' [] (Some ''1'') []]))
      [(''S'', [(''B'', ''r/a'')])] = Inr [(''S'', \<lparr>nrows = 1, columns = [(''B'', [PyStr ''1''])]\<rparr>)]"
  by code_simp

section \<open>An attribute that no element carries\<close>




section \<open>Paths of the Path Extractor in the Value Extractor\<close>

lemma name_char_simps:
  assumes "name_char c"
  shows "tag_char c" "c \<noteq> CHR ''/''" "c \<noteq> CHR ''@''" "c \<noteq> CHR ''{''" "c \<noteq> CHR ''}''"
    "c \<noteq> CHR '':''" "c \<noteq> CHR ''*''" "c \<noteq> CHR 0x27" "c \<noteq> CHR 0x22" "c \<noteq> CHR ''[''"
    "c \<noteq> CHR '']''" "c \<noteq> CHR ''(''" "c \<noteq> CHR '')''" "c \<noteq> CHR ''!''" "c \<noteq> CHR ''=''"
    "\<not> isspace c"
  using assms by (auto simp: name_char_def tag_char_def)

lemma not_tag_char_slash: "\<not> tag_char CHR ''/''"
  by (simp add: tag_char_def)

lemma takeWhile_tag_char_plain:
  assumes "list_all name_char t" and "rest = [] \<or> hd rest = CHR ''/''"
  shows "takeWhile tag_char (t @ rest) = t"
proof -
  have "\<forall>c \<in> set t. tag_char c" using assms(1) by (auto simp: list_all_iff name_char_simps)
  moreover have "takeWhile tag_char rest = []"
    using assms(2) by (cases rest) (auto simp: not_tag_char_slash)
  ultimately show ?thesis by (simp add: takeWhile_append2)
qed

lemma qualified_name_cases:
  assumes "qualified_name t"
  obtains "plain_name t"
  | uri local' where "t = CHR ''{'' # uri @ CHR ''}'' # local'" "uri \<noteq> []"
      "CHR ''}'' \<notin> set uri" "CHR ''@'' \<notin> set uri" "plain_name local'"
proof (cases t)
  case Nil
  then show ?thesis using assms by (simp add: qualified_name_def)
next
  case (Cons c cs)
  show ?thesis
  proof (cases "c = CHR ''{''")
    case False
    then have "plain_name t" using assms Cons by (simp add: qualified_name_def)
    then show ?thesis using that(1) by blast
  next
    case True
    define uri where "uri = takeWhile (\<lambda>x. x \<noteq> CHR ''}'') cs"
    define rest where "rest = dropWhile (\<lambda>x. x \<noteq> CHR ''}'') cs"
    have q: "uri \<noteq> []" "CHR ''@'' \<notin> set uri" "rest \<noteq> []" "plain_name (tl rest)"
      using assms Cons True by (auto simp: qualified_name_def Let_def uri_def rest_def)
    have "hd rest = CHR ''}''" using q(3) hd_dropWhile [of "\<lambda>x. x \<noteq> CHR ''}''" cs]
      by (auto simp: rest_def)
    then have rest: "rest = CHR ''}'' # tl rest" using q(3) by (cases rest) auto
    have "cs = uri @ rest" by (simp add: uri_def rest_def)
    then have t: "t = CHR ''{'' # uri @ CHR ''}'' # tl rest" using Cons True rest by simp
    have "CHR ''}'' \<notin> set uri" unfolding uri_def by (auto dest: set_takeWhileD)
    then show ?thesis using that(2) [OF t q(1) _ q(2) q(4)] by blast
  qed
qed

lemma match_token_plain:
  assumes "plain_name t" and "rest = [] \<or> hd rest = CHR ''/''"
  shows "match_token (t @ rest) = Some (([], t), length t)"
proof -
  from assms(1) obtain c cs where t: "t = c # cs" and nc: "name_char c" and dot: "c \<noteq> CHR ''.''"
    and all: "list_all name_char t"
    by (cases t) (auto simp: plain_name_def)
  have tw: "takeWhile tag_char (t @ rest) = t"
    using takeWhile_tag_char_plain [OF all assms(2)] .
  have mt: "match_tag (t @ rest) = t"
    using tw name_char_simps(4) [OF nc] by (simp add: match_tag_def t Let_def)
  show ?thesis
    unfolding match_token_def using name_char_simps [OF nc] dot mt
    by (simp add: t)
qed

lemma match_token_braced:
  assumes "uri \<noteq> []" and "CHR ''}'' \<notin> set uri" and "plain_name local'"
    and "rest = [] \<or> hd rest = CHR ''/''"
  shows "match_token ((CHR ''{'' # uri @ CHR ''}'' # local') @ rest)
     = Some (([], CHR ''{'' # uri @ CHR ''}'' # local'), length (CHR ''{'' # uri @ CHR ''}'' # local'))"
proof -
  let ?cs = "uri @ CHR ''}'' # local' @ rest"
  have all: "list_all name_char local'" and ne: "local' \<noteq> []" using assms(3) by (auto simp: plain_name_def)
  have nb: "\<forall>x \<in> set uri. x \<noteq> CHR ''}''" using assms(2) by blast
  have tk: "takeWhile (\<lambda>x. x \<noteq> CHR ''}'') ?cs = uri"
    using nb by (simp add: takeWhile_tail)
  have dr: "dropWhile (\<lambda>x. x \<noteq> CHR ''}'') ?cs = CHR ''}'' # local' @ rest"
    using nb by (simp add: dropWhile_append2)
  have tw: "takeWhile tag_char (local' @ rest) = local'"
    using takeWhile_tag_char_plain [OF all assms(4)] .
  have mt: "match_tag (CHR ''{'' # ?cs) = CHR ''{'' # uri @ CHR ''}'' # local'"
    unfolding match_tag_def using tk dr tw assms(1) ne by (simp add: Let_def)
  show ?thesis
    unfolding match_token_def using mt by simp
qed

lemma match_token_qualified:
  assumes "qualified_name t" and "rest = [] \<or> hd rest = CHR ''/''"
  shows "match_token (t @ rest) = Some (([], t), length t)"
  using assms(1)
proof (cases rule: qualified_name_cases)
  case 1
  then show ?thesis using match_token_plain assms(2) by blast
next
  case (2 uri local')
  show ?thesis unfolding 2(1) using match_token_braced [OF 2(2,3,5) assms(2)] .
qed

lemma plain_name_props:
  assumes "plain_name t"
  shows "t \<noteq> []" "name_char (hd t)" "name_char (last t)" "CHR ''@'' \<notin> set t" "CHR '':'' \<notin> set t"
  using assms name_char_simps(3,6) by (auto simp: plain_name_def list_all_iff)

lemma qualified_name_props:
  assumes "qualified_name t"
  shows "t \<noteq> []" "hd t \<noteq> CHR ''/''" "last t \<noteq> CHR ''/''" "CHR ''@'' \<notin> set t"
    "hd t = CHR ''{'' \<or> CHR '':'' \<notin> set t" "t \<noteq> ''{}*''"
proof -
  show "t \<noteq> []" using assms by (auto simp: qualified_name_def)
  show "hd t \<noteq> CHR ''/''"
    using assms name_char_simps(2) [of "hd t"] plain_name_props(2) [of t]
    by (cases rule: qualified_name_cases) auto
  show "last t \<noteq> CHR ''/''"
    using assms
  proof (cases rule: qualified_name_cases)
    case 1
    then show ?thesis using name_char_simps(2) plain_name_props(3) by blast
  next
    case (2 uri local')
    then have "last t = last local'" using plain_name_props(1) [OF 2(5)] by simp
    then show ?thesis using name_char_simps(2) plain_name_props(3) [OF 2(5)] by metis
  qed
  show "CHR ''@'' \<notin> set t"
    using assms plain_name_props(4) by (cases rule: qualified_name_cases) auto
  show "hd t = CHR ''{'' \<or> CHR '':'' \<notin> set t"
    using assms plain_name_props(5) by (cases rule: qualified_name_cases) auto
  show "t \<noteq> ''{}*''"
    using assms
  proof (cases rule: qualified_name_cases)
    case 1
    then show ?thesis using name_char_simps(4) [of "hd t"] plain_name_props(2) [of t] by auto
  next
    case (2 uri local')
    then obtain u us where "uri = u # us" "u \<noteq> CHR ''}''" by (cases uri) auto
    then show ?thesis using 2(1) by auto
  qed
qed

lemma xpath_tokens_segment:
  assumes "qualified_name t" and "rest = [] \<or> hd rest = CHR ''/''"
  shows "xpath_tokens (t @ rest) = ([], t) # xpath_tokens rest"
proof -
  obtain c cs where t: "t = c # cs" using qualified_name_props(1) [OF assms(1)] by (cases t) auto
  have "xpath_tokens (c # (cs @ rest)) = ([], t) # xpath_tokens (drop (length t - 1) (cs @ rest))"
    using match_token_qualified [OF assms] by (simp add: t)
  then show ?thesis by (simp add: t)
qed

lemma xpath_tokens_slash:
  assumes "qualified_name t"
  shows "xpath_tokens (CHR ''/'' # t @ rest) = (''/'', []) # xpath_tokens (t @ rest)"
proof -
  obtain c cs where t: "t = c # cs" and c: "c \<noteq> CHR ''/''"
    using qualified_name_props(1,2) [OF assms] by (cases t) auto
  have "match_token (CHR ''/'' # t @ rest) = Some ((''/'', []), 1)"
    unfolding match_token_def using c by (simp add: t)
  then show ?thesis by simp
qed

lemma xpath_tokens_join:
  "list_all qualified_name ts \<Longrightarrow> xpath_tokens (join_path ts) = path_tokens ts"
proof (induction ts rule: join_path.induct)
  case 1
  then show ?case by simp
next
  case (2 t)
  then show ?case using xpath_tokens_segment [of t "[]"] by simp
next
  case (3 t u us)
  have pu: "qualified_name u" and pt: "qualified_name t" using 3(2) by auto
  have IH: "xpath_tokens (join_path (u # us)) = path_tokens (u # us)" using 3 by simp
  obtain r where r: "join_path (u # us) = u @ r" by (cases us) auto
  have "xpath_tokens (t @ CHR ''/'' # join_path (u # us))
      = ([], t) # xpath_tokens (CHR ''/'' # join_path (u # us))"
    using xpath_tokens_segment [OF pt, of "CHR ''/'' # join_path (u # us)"] by simp
  also have "xpath_tokens (CHR ''/'' # join_path (u # us)) = (''/'', []) # xpath_tokens (join_path (u # us))"
    using xpath_tokens_slash [OF pu, of r] r by simp
  finally show ?case using IH by simp
qed

lemma xpath_tokenizer_join:
  assumes "list_all qualified_name ts"
  shows "xpath_tokenizer (join_path ts) = map Inr (path_tokens ts)"
proof -
  have "map (\<lambda>(ttype, tg). if tg \<noteq> [] \<and> hd tg \<noteq> CHR ''{'' \<and> CHR '':'' \<in> set tg
            then Inl SyntaxError else Inr (ttype, tg)) (path_tokens ts) = map Inr (path_tokens ts)"
    using assms
  proof (induction ts rule: path_tokens.induct)
    case 1
    then show ?case by simp
  next
    case (2 t)
    then show ?case using qualified_name_props(5) [of t] by auto
  next
    case (3 t u us)
    then show ?case using qualified_name_props(5) [of t] by auto
  qed
  then show ?thesis
    by (simp add: xpath_tokenizer_def xpath_tokens_join [OF assms])
qed

lemma compile_selector_path_tokens:
  "ts \<noteq> [] \<Longrightarrow> compile_selector (map Inr (path_tokens ts)) = Inr (map Child ts)"
proof (induction ts rule: path_tokens.induct)
  case 1
  then show ?case by simp
next
  case (2 t)
  then show ?case by (simp add: ops_def)
next
  case (3 t u us)
  then have IH: "compile_selector (map Inr (path_tokens (u # us))) = Inr (map Child (u # us))"
    by simp
  obtain tok rest where pt: "path_tokens (u # us) = tok # rest" by (cases us) auto
  show ?case using IH by (simp add: ops_def pt)
qed

lemma prepare_tag_ok: "tg \<noteq> ''{}*'' \<Longrightarrow> \<exists>out. prepare_tag tg result = Inr out"
  by (simp add: prepare_tag_def Let_def)

lemma select_Child_ok: "tg \<noteq> ''{}*'' \<Longrightarrow> \<exists>out. select (Child tg) result = Inr out"
  using prepare_tag_ok [of tg "concat (map children result)"] by (simp add: Let_def)

lemma run_selector_children:
  "list_all qualified_name ts \<Longrightarrow> \<exists>out. run_selector (map Child ts) result = Inr out"
proof (induction ts arbitrary: result)
  case Nil
  then show ?case by simp
next
  case (Cons t ts)
  obtain r1 where r1: "select (Child t) result = Inr r1"
    using select_Child_ok [OF qualified_name_props(6), of t result] Cons.prems by auto
  obtain out where "run_selector (map Child ts) r1 = Inr out" using Cons by auto
  then show ?case using r1 by simp
qed

lemma join_path_Cons: "ts \<noteq> [] \<Longrightarrow> join_path (t # ts) = t @ CHR ''/'' # join_path ts"
  by (cases ts) auto

lemma join_path_hd:
  "list_all qualified_name ts \<Longrightarrow> ts \<noteq> [] \<Longrightarrow> join_path ts \<noteq> [] \<and> hd (join_path ts) \<noteq> CHR ''/''"
  using qualified_name_props(1,2)
  by (cases ts rule: join_path.cases) (auto simp: neq_Nil_conv)

lemma join_path_last:
  "list_all qualified_name ts \<Longrightarrow> ts \<noteq> [] \<Longrightarrow> join_path ts \<noteq> [] \<and> last (join_path ts) \<noteq> CHR ''/''"
proof (induction ts rule: join_path.induct)
  case 1
  then show ?case by simp
next
  case (2 t)
  then show ?case using qualified_name_props(1,3) [of t] by auto
next
  case (3 t u us)
  then have "join_path (u # us) \<noteq> [] \<and> last (join_path (u # us)) \<noteq> CHR ''/''" by simp
  then show ?case by simp
qed

lemma findall_join_path:
  assumes "list_all qualified_name ts" and "ts \<noteq> []"
  shows "\<exists>found. findall root (join_path ts) = Inr found"
proof (cases "checkpath (join_path ts)")
  case False
  then show ?thesis by (simp add: findall_def)
next
  case True
  obtain c r where hd: "join_path ts = c # r" "c \<noteq> CHR ''/''"
    using join_path_hd [OF assms] by (cases "join_path ts") auto
  have last: "last (join_path ts) \<noteq> CHR ''/''"
    using join_path_last [OF assms] by blast
  obtain tok rest where pt: "path_tokens ts = tok # rest"
    using assms(2) by (cases ts rule: path_tokens.cases) auto
  obtain out where out: "run_selector (map Child ts) [root] = Inr out"
    using run_selector_children [OF assms(1)] by blast
  have "iterfind root (join_path ts) = Inr (Some out)"
    unfolding iterfind_def Let_def
    using last hd xpath_tokenizer_join [OF assms(1)]
      compile_selector_path_tokens [OF assms(2)] out
    by (auto simp: pt)
  then show ?thesis using True by (simp add: findall_def)
qed

lemma findall_self: "findall root ''.'' = Inr [root]"
  by (simp add: findall_def checkpath_def iterfind_def xpath_tokenizer_def match_token_def ops_def)

lemma parsed_names_tag: "parsed_names e \<Longrightarrow> qualified_name (tag e)"
  by (cases e) simp

lemma parsed_names_attrib: "parsed_names e \<Longrightarrow> a \<in> set (map fst (attrib e)) \<Longrightarrow> CHR ''@'' \<notin> set a"
  by (cases e) (auto simp: list_all_iff)

lemma walk_paths:
  "parsed_names e \<Longrightarrow> (p, e') \<in> set (walk e cur) \<Longrightarrow>
   parsed_names e' \<and> (\<exists>ts. list_all qualified_name ts
      \<and> p = (if cur \<noteq> [] then cur @ ''/'' else []) @ join_path (tag e # ts))"
proof (induction e cur arbitrary: p e' rule: walk.induct)
  case (1 t as tx cs current_path)
  define path where "path = (if current_path \<noteq> [] then current_path @ ''/'' @ t else t)"
  have pt: "qualified_name t" using 1(2) by simp
  then have path_ne: "path \<noteq> []" using qualified_name_props(1) by (auto simp: path_def)
  from 1(3) consider "(p, e') = (path, Element t as tx cs)"
    | c where "c \<in> set cs" "(p, e') \<in> set (walk c path)"
    by (auto simp: Let_def path_def)
  then show ?case
  proof cases
    case 1
    have "list_all qualified_name []" by simp
    moreover have "p = (if current_path \<noteq> [] then current_path @ ''/'' else []) @ join_path (t # [])"
      using 1 by (simp add: path_def)
    ultimately show ?thesis using 1 "1.prems"(1) by (metis Pair_inject element.sel(1))
  next
    case 2
    have pc: "parsed_names c" using "1.prems"(1) 2(1) by (auto simp: list_all_iff)
    from "1.IH" [OF path_def 2(1) pc 2(2)]
    obtain ts where ts: "parsed_names e'" "list_all qualified_name ts"
      "p = path @ ''/'' @ join_path (tag c # ts)"
      using path_ne by auto
    have "list_all qualified_name (tag c # ts)" using ts(2) parsed_names_tag [OF pc] by simp
    moreover have "p = (if current_path \<noteq> [] then current_path @ ''/'' else []) @ join_path (t # tag c # ts)"
      using ts(3) by (simp add: path_def)
    ultimately show ?thesis using ts(1) by (metis element.sel(1))
  qed
qed

lemma get_xpath_paths:
  assumes "parsed_names root" and "p \<in> set (get_xpath root [])"
  shows "\<exists>ts. list_all qualified_name ts
     \<and> (p = join_path (tag root # ts)
        \<or> (\<exists>a. CHR ''@'' \<notin> set a \<and> p = join_path (tag root # ts) @ ''/@'' @ a))"
proof -
  from assms(2) obtain q e' where w: "(q, e') \<in> set (walk root [])" and em: "p \<in> set (emitted (q, e'))"
    by (auto simp: get_xpath_walk)
  from walk_paths [OF assms(1) w] obtain ts where ts: "parsed_names e'" "list_all qualified_name ts"
    "q = join_path (tag root # ts)" by auto
  from em have "p = q \<or> (\<exists>a \<in> set (map fst (attrib e')). p = q @ ''/@'' @ a)"
    by (auto simp: emitted_def split: if_splits)
  then show ?thesis using ts parsed_names_attrib [OF ts(1)] by blast
qed

lemma join_path_no_at: "list_all qualified_name ts \<Longrightarrow> CHR ''@'' \<notin> set (join_path ts)"
  using qualified_name_props(4) by (induction ts rule: join_path.induct) auto

lemma path_for_findall_join:
  "path_for_findall t (join_path (t # ts)) = (if ts = [] then ''.'' else join_path ts)"
  by (cases ts) (auto simp: path_for_findall_def)

lemma findall_resolved:
  assumes "list_all qualified_name ts"
  shows "\<exists>found. findall root (path_for_findall (tag root) (join_path (tag root # ts))) = Inr found"
  using findall_self [of root] findall_join_path [OF assms, of root]
  by (auto simp: path_for_findall_join)

lemma column_values_extracted:
  assumes "parsed_names root" and "p \<in> set (get_xpath root [])"
  shows "\<exists>vals. column_values root p = Inr vals"
proof -
  from get_xpath_paths [OF assms] obtain ts where ts: "list_all qualified_name ts"
    and p: "p = join_path (tag root # ts)
        \<or> (\<exists>a. CHR ''@'' \<notin> set a \<and> p = join_path (tag root # ts) @ ''/@'' @ a)" by blast
  have all: "list_all qualified_name (tag root # ts)" using ts parsed_names_tag [OF assms(1)] by simp
  obtain found where found: "findall root (path_for_findall (tag root) (join_path (tag root # ts))) = Inr found"
    using findall_resolved [OF ts] by blast
  from p show ?thesis
  proof
    assume "p = join_path (tag root # ts)"
    then show ?thesis using join_path_no_at [OF all] found by (simp add: column_values_def)
  next
    assume "\<exists>a. CHR ''@'' \<notin> set a \<and> p = join_path (tag root # ts) @ ''/@'' @ a"
    then obtain a where a: "CHR ''@'' \<notin> set a" "p = join_path (tag root # ts) @ ''/@'' @ a" by blast
    show ?thesis
      using column_values_attribute [OF a(1) found] a(2) by simp
  qed
qed

lemma extract_single_column:
  "column_values root p = Inr vals \<Longrightarrow>
   extract_data_from_one_xml (WellFormed root) [(sheet_name, [(excel_col, p)])]
     = Inr [(sheet_name, \<lparr>nrows = length vals, columns = [(excel_col, vals)]\<rparr>)]"
  by (simp add: extract_data_from_one_xml_def aligned_sheet_data_def DataFrame_def)

text \<open>
  C3, as the code has it. For every well-formed document whose tags are XML names, with
  or without a namespace, and in which no namespace URI and no attribute name holds an
  \<^verbatim>\<open>@\<close>, every path that \<^verbatim>\<open>extract_xml_tags\<close> returns for the document, given back to
  \<^verbatim>\<open>extract_data_from_one_xml\<close> with the same document as the only column of one sheet,
  raises no error: the result is that sheet with that column and a list of values.
\<close>

theorem extracted_paths_are_extractable:
  assumes "parsed_names root" and "p \<in> set (extract_xml_tags (WellFormed root))"
  shows "\<exists>vals. extract_data_from_one_xml (WellFormed root) [(sheet_name, [(excel_col, p)])]
     = Inr [(sheet_name, \<lparr>nrows = length vals, columns = [(excel_col, vals)]\<rparr>)]"
proof -
  have "p \<in> set (get_xpath root [])" using assms(2) by (simp add: extract_xml_tags_def)
  from column_values_extracted [OF assms(1) this] obtain vals where "column_values root p = Inr vals"
    by blast
  from extract_single_column [OF this] show ?thesis by blast
qed

text \<open>The theorem at
  \<^verbatim>\<open><people xmlns="http://a/b"><person id="1"><name xmlns="">Alice</name></person></people>\<close>
  and its attribute path.\<close>

theorem extracted_paths_are_extractable_witness:
  "parsed_names (Element ''{http://a/b}people'' [] None
       [Element ''{http://a/b}person'' [(''id'', ''1'')] None [Element ''name'' [] (Some ''Alice'') []]])
   \<and> extract_xml_tags (WellFormed (Element ''{http://a/b}people'' [] None
       [Element ''{http://a/b}person'' [(''id'', ''1'')] None [Element ''name'' [] (Some ''Alice'') []]]))
      = [''{http://a/b}people/{http://a/b}person/@id'', ''{http://a/b}people/{http://a/b}person/name'']
   \<and> (\<exists>vals. extract_data_from_one_xml (WellFormed (Element ''{http://a/b}people'' [] None
       [Element ''{http://a/b}person'' [(''id'', ''1'')] None [Element ''name'' [] (Some ''Alice'') []]]))
         [(''Data'', [(''Id'', ''{http://a/b}people/{http://a/b}person/@id'')])]
        = Inr [(''Data'', \<lparr>nrows = length vals, columns = [(''Id'', vals)]\<rparr>)])"
proof -
  let ?root = "Element ''{http://a/b}people'' [] None
       [Element ''{http://a/b}person'' [(''id'', ''1'')] None [Element ''name'' [] (Some ''Alice'') []]]"
  have h1: "parsed_names ?root" by code_simp
  have tags: "extract_xml_tags (WellFormed ?root)
      = [''{http://a/b}people/{http://a/b}person/@id'', ''{http://a/b}people/{http://a/b}person/name'']"
    by code_simp
  have h2: "''{http://a/b}people/{http://a/b}person/@id'' \<in> set (extract_xml_tags (WellFormed ?root))"
    unfolding tags by simp
  show ?thesis
    using extracted_paths_are_extractable [OF h1 h2, of "''Data''" "''Id''"] h1 tags by simp
qed

text \<open>The claim as stated fails: the well-formed document \<^verbatim>\<open><r xmlns="urn:x@y">hi</r>\<close>
  has the root tag \<^verbatim>\<open>{urn:x@y}r\<close>; the Path Extractor returns that tag as a leaf path, and
  the Value Extractor, which takes every path with an \<^verbatim>\<open>@\<close> for an attribute path, fails to
  split it and raises \<^verbatim>\<open>ValueError\<close>.\<close>

theorem namespace_with_at_counterexample:
  "extract_xml_tags (WellFormed (Element ''{urn:x@y}r'' [] (Some ''hi'') [])) = [''{urn:x@y}r'']
   \<and> extract_data_from_one_xml (WellFormed (Element ''{urn:x@y}r'' [] (Some ''hi'') []))
        [(''S'', [(''A'', ''{urn:x@y}r'')])] = Inl ValueError"
  by code_simp

section \<open>Merge of the sources\<close>

lemma update_fresh: "k \<notin> set (map fst al) \<Longrightarrow> AList.update k v al = al @ [(k, v)]"
  by (induction al) auto

lemma pad_to_length: "length (pad_to n v) = n"
  by (simp add: pad_to_def)

lemma pad_to_id: "length v = n \<Longrightarrow> pad_to n v = v"
  by (simp add: pad_to_def)

lemma pad_to_Nil: "pad_to n [] = replicate n NaN"
  by (simp add: pad_to_def)

lemma wf_frame_columns_id:
  "wf_frame df \<Longrightarrow> map (\<lambda>(k, v). (k, pad_to (nrows df) v)) (columns df) = columns df"
  by (rule map_idI) (auto simp: wf_frame_def list_all_iff pad_to_id)

lemma reindex_columns:
  "columns (reindex df n) = map (\<lambda>(k, v). (k, pad_to n v)) (columns df)"
  by (simp add: reindex_def pad_to_def)

lemma map_fst_pad: "map fst (map (\<lambda>(k, v). (k, f v)) al) = map fst al"
  by (induction al) auto

lemma setitem_fresh:
  fixes series :: "pyobj list"
  assumes "wf_frame df" and "c \<notin> set (map fst (columns df))"
  defines "n' \<equiv> (if nrows df = 0 \<and> length series > 0 then length series else nrows df)"
  shows "setitem df c series
    = \<lparr>nrows = n', columns = map (\<lambda>(k, v). (k, pad_to n' v)) (columns df) @ [(c, pad_to n' series)]\<rparr>"
proof (cases "nrows df = 0 \<and> length series > 0")
  case True
  then have n': "n' = length series" by (simp add: n'_def)
  have "map fst (columns (reindex df (length series))) = map fst (columns df)"
    by (simp only: reindex_columns map_fst_pad)
  then have fresh: "c \<notin> set (map fst (columns (reindex df (length series))))"
    using assms(2) by simp
  show ?thesis
    using True update_fresh [OF fresh]
    by (simp add: setitem_def Let_def n' reindex_columns pad_to_def reindex_def)
next
  case False
  then have n': "n' = nrows df" by (auto simp: n'_def)
  show ?thesis
    using False update_fresh [OF assms(2)] wf_frame_columns_id [OF assms(1)]
    by (auto simp: setitem_def Let_def n' pad_to_def)
qed

lemma pad_pad: "k = n \<or> length w = k \<or> w = [] \<Longrightarrow> pad_to n (pad_to k w) = pad_to n w"
proof (elim disjE)
  assume "k = n"
  then show ?thesis by (simp add: pad_to_id pad_to_length)
next
  assume "length w = k"
  then show ?thesis by (simp add: pad_to_id)
next
  assume "w = []"
  then show ?thesis
    by (simp add: pad_to_def min_def replicate_add [symmetric] del: replicate_add)
qed

lemma map_of_pad:
  "map_of (map (\<lambda>(k, v). (k, f v)) al) c = map_option f (map_of al c)"
  by (induction al) auto

lemma wf_frame_setitem:
  fixes series :: "pyobj list"
  assumes "wf_frame df" and "c \<notin> set (map fst (columns df))"
  shows "wf_frame (setitem df c series)"
proof -
  let ?n = "(if nrows df = 0 \<and> length series > 0 then length series else nrows df)"
  have "map fst (map (\<lambda>(k, v). (k, pad_to ?n v)) (columns df)) = map fst (columns df)"
    by (rule map_fst_pad)
  then show ?thesis
    using assms unfolding setitem_fresh [OF assms] wf_frame_def
    by (auto simp: list_all_iff pad_to_length simp del: map_map)
qed

lemma fold_add_columns:
  fixes cols :: "(string \<times> pyobj list) list"
  assumes "wf_frame ex" and "distinct (map fst cols)" and "\<forall>cv \<in> set cols. length (snd cv) = m"
  defines "r \<equiv> fold (\<lambda>(col_to_add, series) df.
             if col_to_add \<notin> set (map fst (columns df)) then setitem df col_to_add series else df)
          cols ex"
  shows "wf_frame r
    \<and> map fst (columns r)
        = map fst (columns ex) @ filter (\<lambda>c. c \<notin> set (map fst (columns ex))) (map fst cols)
    \<and> (\<forall>c. map_of (columns r) c
           = (case map_of (columns ex) c of
                Some v \<Rightarrow> Some (pad_to (nrows r) v)
              | None \<Rightarrow> map_option (pad_to (nrows r)) (map_of cols c)))
    \<and> (nrows ex \<noteq> 0 \<longrightarrow> nrows r = nrows ex)
    \<and> (nrows r = nrows ex \<or> nrows r = m)
    \<and> (nrows r = 0 \<longrightarrow> (\<forall>cv \<in> set cols. fst cv \<notin> set (map fst (columns ex)) \<longrightarrow> snd cv = []))"
  using assms(1,2,3) unfolding r_def
proof (induction cols arbitrary: ex)
  case Nil
  have "pad_to (nrows ex) v = v" if "map_of (columns ex) c = Some v" for c v
    using that Nil(1) by (auto simp: wf_frame_def list_all_iff pad_to_id dest!: map_of_SomeD)
  then show ?case using Nil(1) by (auto split: option.splits)
next
  case (Cons a rest)
  obtain c v where a: "a = (c, v)" by (cases a)
  let ?F = "\<lambda>(col_to_add, series) df.
             if col_to_add \<notin> set (map fst (columns df)) then setitem df col_to_add series else df"
  have lv: "length v = m" using Cons.prems(3) a by simp
  have drest: "distinct (map fst rest)" and crest: "c \<notin> set (map fst rest)"
    using Cons.prems(2) a by auto
  have mrest: "\<forall>cv \<in> set rest. length (snd cv) = m" using Cons.prems(3) by simp
  show ?case
  proof (cases "c \<in> set (map fst (columns ex))")
    case True
    then obtain w where w: "map_of (columns ex) c = Some w"
      by (metis map_of_eq_None_iff not_Some_eq set_map)
    have step: "fold ?F (a # rest) ex = fold ?F rest ex" using True a by simp
    note IH = Cons.IH [OF Cons.prems(1) drest mrest]
    have filt: "filter (\<lambda>c. c \<notin> set (map fst (columns ex))) (map fst (a # rest))
        = filter (\<lambda>c. c \<notin> set (map fst (columns ex))) (map fst rest)"
      using True a by simp
    have vals: "(case map_of (columns ex) k of Some v \<Rightarrow> Some (pad_to n v)
                 | None \<Rightarrow> map_option (pad_to n) (map_of (a # rest) k))
              = (case map_of (columns ex) k of Some v \<Rightarrow> Some (pad_to n v)
                 | None \<Rightarrow> map_option (pad_to n) (map_of rest k))" for k n
      using w a by (cases "k = c") (auto split: option.splits)
    show ?thesis
      unfolding step filt vals using IH True a by auto
  next
    case False
    define n1 where "n1 = (if nrows ex = 0 \<and> length v > 0 then length v else nrows ex)"
    define ex1 where "ex1 = setitem ex c v"
    have ex1: "ex1 = \<lparr>nrows = n1,
        columns = map (\<lambda>(k, v). (k, pad_to n1 v)) (columns ex) @ [(c, pad_to n1 v)]\<rparr>"
      unfolding ex1_def n1_def using setitem_fresh [OF Cons.prems(1) False] by simp
    have wf1: "wf_frame ex1" unfolding ex1_def by (rule wf_frame_setitem [OF Cons.prems(1) False])
    have step: "fold ?F (a # rest) ex = fold ?F rest ex1" using False a by (simp add: ex1_def)
    define r where "r = fold ?F rest ex1"
    note IH = Cons.IH [OF wf1 drest mrest, folded r_def]
    have names1: "map fst (columns ex1) = map fst (columns ex) @ [c]"
      by (simp add: ex1 map_fst_pad del: map_map)
    have nr1: "nrows ex1 = n1" by (simp add: ex1)
    have n1_cases: "n1 = nrows ex \<or> n1 = m" using lv by (auto simp: n1_def)
    have rows_d: "nrows ex \<noteq> 0 \<longrightarrow> nrows r = nrows ex"
      using IH nr1 by (auto simp: n1_def)
    have rows_e: "nrows r = nrows ex \<or> nrows r = m"
      using IH nr1 n1_cases by auto
    have n1_pos: "v \<noteq> [] \<Longrightarrow> n1 \<noteq> 0" by (auto simp: n1_def)
    have rows_f: "nrows r = 0 \<longrightarrow>
        (\<forall>cv \<in> set (a # rest). fst cv \<notin> set (map fst (columns ex)) \<longrightarrow> snd cv = [])"
    proof (intro impI ballI)
      fix cv assume z: "nrows r = 0" and cv: "cv \<in> set (a # rest)"
        and fr: "fst cv \<notin> set (map fst (columns ex))"
      show "snd cv = []"
      proof (cases "cv = a")
        case True
        have "n1 = 0" using IH nr1 z by auto
        then show ?thesis using n1_pos True a by auto
      next
        case False
        then have in_rest: "cv \<in> set rest" using cv by simp
        then have "fst cv \<noteq> c" using crest by auto
        then have "fst cv \<notin> set (map fst (columns ex1))" using fr names1 by simp
        then show ?thesis using IH z in_rest by blast
      qed
    qed
    have names: "map fst (columns r)
        = map fst (columns ex) @ filter (\<lambda>c. c \<notin> set (map fst (columns ex))) (map fst (a # rest))"
    proof -
      have "filter (\<lambda>k. k \<notin> set (map fst (columns ex1))) (map fst rest)
          = filter (\<lambda>k. k \<notin> set (map fst (columns ex))) (map fst rest)"
        using crest by (intro filter_cong) (auto simp: names1)
      then show ?thesis using IH False a names1 by simp
    qed
    have vals: "map_of (columns r) k
           = (case map_of (columns ex) k of
                Some v \<Rightarrow> Some (pad_to (nrows r) v)
              | None \<Rightarrow> map_option (pad_to (nrows r)) (map_of (a # rest) k))" for k
    proof -
      have IHv: "map_of (columns r) k
           = (case map_of (columns ex1) k of
                Some v \<Rightarrow> Some (pad_to (nrows r) v)
              | None \<Rightarrow> map_option (pad_to (nrows r)) (map_of rest k))"
        using IH by blast
      have m1: "map_of (columns ex1) k
          = (case map_of (columns ex) k of
               Some w \<Rightarrow> Some (pad_to n1 w)
             | None \<Rightarrow> if k = c then Some (pad_to n1 v) else None)"
        by (auto simp: ex1 map_add_def map_of_pad split: option.splits)
      show ?thesis
      proof (cases "map_of (columns ex) k")
        case (Some w)
        have "length w = nrows ex"
          using Some Cons.prems(1) by (auto simp: wf_frame_def list_all_iff dest!: map_of_SomeD)
        then have "n1 = nrows r \<or> length w = n1 \<or> w = []"
          using IH nr1 by (auto simp: n1_def)
        from pad_pad [OF this] show ?thesis using Some IHv m1 by simp
      next
        case None
        show ?thesis
        proof (cases "k = c")
          case True
          have "n1 = nrows r \<or> length v = n1 \<or> v = []"
            using IH nr1 by (auto simp: n1_def)
          from pad_pad [OF this] show ?thesis using None True IHv m1 a by simp
        next
          case False
          then show ?thesis using None IHv m1 a by simp
        qed
      qed
    qed
    have "wf_frame r" using IH by blast
    then show ?thesis
      unfolding step r_def [symmetric] using names vals rows_d rows_e rows_f by blast
  qed
qed

lemma add_new_columns_props:
  assumes "wf_frame ex" and "wf_frame df"
  defines "r \<equiv> add_new_columns ex df"
  shows "wf_frame r
    \<and> map fst (columns r)
        = map fst (columns ex) @ filter (\<lambda>c. c \<notin> set (map fst (columns ex))) (map fst (columns df))
    \<and> (\<forall>c. map_of (columns r) c
           = (case map_of (columns ex) c of
                Some v \<Rightarrow> Some (pad_to (nrows r) v)
              | None \<Rightarrow> map_option (pad_to (nrows r)) (map_of (columns df) c)))
    \<and> (nrows ex \<noteq> 0 \<longrightarrow> nrows r = nrows ex)
    \<and> (nrows r = nrows ex \<or> nrows r = nrows df)
    \<and> (nrows r = 0 \<longrightarrow> (\<forall>cv \<in> set (columns df). fst cv \<notin> set (map fst (columns ex)) \<longrightarrow> snd cv = []))"
proof -
  have d: "distinct (map fst (columns df))" and l: "\<forall>cv \<in> set (columns df). length (snd cv) = nrows df"
    using assms(2) by (auto simp: wf_frame_def list_all_iff)
  show ?thesis
    unfolding r_def add_new_columns_def by (rule fold_add_columns [OF assms(1) d l])
qed

lemma map_of_merge_sheet:
  "map_of (merge_sheet (s', df) final) s
     = (if s = s'
        then Some (case map_of final s of None \<Rightarrow> df | Some ex \<Rightarrow> add_new_columns ex df)
        else map_of final s)"
  by (auto simp: merge_sheet_def update_conv' split: option.splits)

lemma map_of_fold_merge_sheet:
  "distinct (map fst d) \<Longrightarrow>
   map_of (fold merge_sheet d final) s
     = (case map_of d s of
          None \<Rightarrow> map_of final s
        | Some df \<Rightarrow> Some (case map_of final s of None \<Rightarrow> df | Some ex \<Rightarrow> add_new_columns ex df))"
proof (induction d arbitrary: final)
  case Nil
  then show ?case by simp
next
  case (Cons a rest)
  obtain s' df' where a: "a = (s', df')" by (cases a)
  have d: "distinct (map fst rest)" and fresh: "s' \<notin> set (map fst rest)" using Cons.prems a by auto
  have none: "map_of rest s' = None" using fresh by (simp add: map_of_eq_None_iff)
  show ?case
    using Cons.IH [OF d, of "merge_sheet (s', df') final"] none
    by (auto simp: a map_of_merge_sheet split: option.splits)
qed

lemma final_snoc:
  "final_data_to_write_by_sheet (all @ [d]) = fold merge_sheet d (final_data_to_write_by_sheet all)"
  by (simp add: final_data_to_write_by_sheet_def)

lemma first_column_snoc:
  "first_column (all @ [d]) s c
     = (case first_column all s c of
          Some v \<Rightarrow> Some v
        | None \<Rightarrow> (case map_of d s of None \<Rightarrow> None | Some df \<Rightarrow> map_of (columns df) c))"
  by (induction all) (auto split: option.splits)

lemma union_columns_snoc:
  "union_columns (all @ [d]) s
     = (case map_of d s of
          None \<Rightarrow> union_columns all s
        | Some df \<Rightarrow> union_columns all s
            @ filter (\<lambda>c. c \<notin> set (union_columns all s)) (map fst (columns df)))"
  unfolding union_columns_def by (simp split: option.splits)

lemma no_sheet_first_column:
  "list_all (\<lambda>d. map_of d s = None) all \<Longrightarrow> first_column all s c = None"
  by (induction all) auto

lemma no_sheet_union_columns:
  "list_all (\<lambda>d. map_of d s = None) all \<Longrightarrow> union_columns all s = []"
proof (induction all rule: rev_induct)
  case Nil
  then show ?case by (simp add: union_columns_def)
next
  case (snoc d all)
  then show ?case by (simp add: union_columns_snoc)
qed

lemma wf_frame_map_of:
  "wf_frame df \<Longrightarrow> map_of (columns df) c = Some v \<Longrightarrow> length v = nrows df"
  by (auto simp: wf_frame_def list_all_iff dest!: map_of_SomeD)

lemma wf_source_map_of: "wf_source d \<Longrightarrow> map_of d s = Some df \<Longrightarrow> wf_frame df"
  by (auto simp: wf_source_def list_all_iff dest!: map_of_SomeD)

lemma merge_invariant:
  assumes "list_all wf_source all"
  shows "(case map_of (final_data_to_write_by_sheet all) s of
          None \<Rightarrow> list_all (\<lambda>d. map_of d s = None) all
        | Some ex \<Rightarrow> wf_frame ex \<and> \<not> list_all (\<lambda>d. map_of d s = None) all
            \<and> map fst (columns ex) = union_columns all s
            \<and> (\<forall>c. map_of (columns ex) c = map_option (pad_to (nrows ex)) (first_column all s c))
            \<and> (nrows ex = 0 \<longrightarrow> (\<forall>c v. first_column all s c = Some v \<longrightarrow> v = []))
            \<and> (\<forall>n. list_all (\<lambda>d. case map_of d s of None \<Rightarrow> True | Some df \<Rightarrow> nrows df = n) all
                   \<longrightarrow> nrows ex = n))"
  using assms
proof (induction all rule: rev_induct)
  case Nil
  then show ?case by (simp add: final_data_to_write_by_sheet_def)
next
  case (snoc d all)
  have wfd: "wf_source d" and wfall: "list_all wf_source all" using snoc.prems by auto
  have dd: "distinct (map fst d)" using wfd by (simp add: wf_source_def)
  note IH = snoc.IH [OF wfall]
  note step = map_of_fold_merge_sheet [OF dd, of "final_data_to_write_by_sheet all" s]
  show ?case
  proof (cases "map_of d s")
    case None
    have same: "map_of (final_data_to_write_by_sheet (all @ [d])) s
        = map_of (final_data_to_write_by_sheet all) s"
      using step None by (simp add: final_snoc)
    show ?thesis
      unfolding same using IH None
      by (auto simp: first_column_snoc union_columns_snoc split: option.splits)
  next
    case (Some df)
    note dS = Some
    have wfdf: "wf_frame df" using wf_source_map_of [OF wfd dS] .
    show ?thesis
    proof (cases "map_of (final_data_to_write_by_sheet all) s")
      case None
      have new: "map_of (final_data_to_write_by_sheet (all @ [d])) s = Some df"
        using step None dS by (simp add: final_snoc)
      have nosheet: "list_all (\<lambda>d. map_of d s = None) all" using IH None by simp
      have fc: "first_column (all @ [d]) s c = map_of (columns df) c" for c
        using no_sheet_first_column [OF nosheet] dS by (simp add: first_column_snoc)
      have uc: "union_columns (all @ [d]) s = map fst (columns df)"
        using no_sheet_union_columns [OF nosheet] dS by (simp add: union_columns_snoc)
      have vals: "map_of (columns df) c = map_option (pad_to (nrows df)) (map_of (columns df) c)" for c
        using wf_frame_map_of [OF wfdf] by (cases "map_of (columns df) c") (auto simp: pad_to_id)
      have zero: "nrows df = 0 \<longrightarrow> (\<forall>c v. map_of (columns df) c = Some v \<longrightarrow> v = [])"
        using wf_frame_map_of [OF wfdf] by fastforce
      show ?thesis
        unfolding new using wfdf dS vals zero by (simp add: fc uc)
    next
      case (Some ex)
      note exS = Some
      define r where "r = add_new_columns ex df"
      have new: "map_of (final_data_to_write_by_sheet (all @ [d])) s = Some r"
        using step exS dS by (simp add: final_snoc r_def)
      have IHex: "wf_frame ex" "\<not> list_all (\<lambda>d. map_of d s = None) all"
        "map fst (columns ex) = union_columns all s"
        "\<And>c. map_of (columns ex) c = map_option (pad_to (nrows ex)) (first_column all s c)"
        "nrows ex = 0 \<Longrightarrow> first_column all s c = Some v \<Longrightarrow> v = []"
        "\<And>n. list_all (\<lambda>d. case map_of d s of None \<Rightarrow> True | Some df \<Rightarrow> nrows df = n) all
             \<Longrightarrow> nrows ex = n" for c v
        using IH exS by auto
      note P = add_new_columns_props [OF IHex(1) wfdf, folded r_def]
      have wfr: "wf_frame r" using P by blast
      have names: "map fst (columns r) = union_columns (all @ [d]) s"
        using P IHex(3) dS by (simp add: union_columns_snoc)
      have rows_d: "nrows ex \<noteq> 0 \<Longrightarrow> nrows r = nrows ex" using P by blast
      have vals: "map_of (columns r) c = map_option (pad_to (nrows r)) (first_column (all @ [d]) s c)" for c
      proof (cases "first_column all s c")
        case None
        then have "map_of (columns ex) c = None" using IHex(4) [of c] by simp
        then show ?thesis using P None dS by (simp add: first_column_snoc)
      next
        case (Some v0)
        then have mex: "map_of (columns ex) c = Some (pad_to (nrows ex) v0)" using IHex(4) [of c] by simp
        have "nrows ex = nrows r \<or> length v0 = nrows ex \<or> v0 = []"
          using rows_d IHex(5) [OF _ Some] by (cases "nrows ex = 0") auto
        from pad_pad [OF this] show ?thesis using P mex Some by (simp add: first_column_snoc)
      qed
      have zero: "nrows r = 0 \<longrightarrow> (\<forall>c v. first_column (all @ [d]) s c = Some v \<longrightarrow> v = [])"
      proof (intro impI allI)
        fix c v assume z: "nrows r = 0" and fc: "first_column (all @ [d]) s c = Some v"
        have ez: "nrows ex = 0" using rows_d z by auto
        show "v = []"
        proof (cases "first_column all s c")
          case None
          then have "map_of (columns ex) c = None" using IHex(4) [of c] by simp
          then have fresh: "c \<notin> set (map fst (columns ex))" by (simp add: map_of_eq_None_iff)
          have "map_of (columns df) c = Some v" using fc None dS by (simp add: first_column_snoc)
          then have "(c, v) \<in> set (columns df)" by (rule map_of_SomeD)
          then show ?thesis using P z fresh by fastforce
        next
          case (Some v0)
          then have "v0 = v" using fc by (simp add: first_column_snoc)
          then show ?thesis using IHex(5) [OF ez Some] by simp
        qed
      qed
      have uniform: "\<forall>n. list_all (\<lambda>d. case map_of d s of None \<Rightarrow> True | Some df \<Rightarrow> nrows df = n) (all @ [d])
                   \<longrightarrow> nrows r = n"
        using P IHex(6) dS by auto
      show ?thesis
        unfolding new using wfr IHex(2) names vals zero uniform by simp
    qed
  qed
qed

lemma first_column_length:
  assumes "list_all wf_source all"
    and "list_all (\<lambda>d. case map_of d s of None \<Rightarrow> True | Some df \<Rightarrow> nrows df = n) all"
    and "first_column all s c = Some v"
  shows "length v = n"
  using assms
proof (induction all)
  case Nil
  then show ?case by simp
next
  case (Cons d all)
  show ?case
  proof (cases "map_of d s")
    case None
    then show ?thesis using Cons by simp
  next
    case (Some df)
    have wfdf: "wf_frame df" using wf_source_map_of [OF _ Some] Cons.prems(1) by simp
    have n: "nrows df = n" using Cons.prems(2) Some by simp
    show ?thesis
    proof (cases "map_of (columns df) c")
      case None
      then show ?thesis using Cons Some by simp
    next
      case (Some v')
      then have "v' = v" using Cons.prems(3) \<open>map_of d s = Some df\<close> by simp
      then show ?thesis using wf_frame_map_of [OF wfdf Some] n by simp
    qed
  qed
qed

text \<open>
  C4. The merge of the sources, for well-formed tables. A sheet that the accumulator does
  not have yet enters it with the table of the source as it is. The merged result has a
  sheet exactly when one of the sources has it; its column names are the column union in
  processing order (names not yet present are appended); and each of its columns holds the
  values of the first source, in processing order, that has this column for this sheet,
  whatever later sources hold under the same name, aligned with the rows of the merged
  frame. When the tables of the sheet all have \<open>n\<close> rows, as the export arranges before it
  merges, the merged frame has \<open>n\<close> rows and the column is the first writer's column
  value for value.
\<close>

theorem cross_source_merge_first_writer_wins:
  assumes "list_all wf_source all"
  shows "(map_of final sheet_name = None \<longrightarrow>
            merge_sheet (sheet_name, df) final = final @ [(sheet_name, df)])
    \<and> ((map_of (final_data_to_write_by_sheet all) sheet_name = None)
         = list_all (\<lambda>d. map_of d sheet_name = None) all)
    \<and> (\<forall>out_df. map_of (final_data_to_write_by_sheet all) sheet_name = Some out_df \<longrightarrow>
          map fst (columns out_df) = union_columns all sheet_name
        \<and> map_of (columns out_df) col
            = map_option (pad_to (nrows out_df)) (first_column all sheet_name col)
        \<and> (list_all (\<lambda>d. case map_of d sheet_name of None \<Rightarrow> True | Some df' \<Rightarrow> nrows df' = n) all
             \<longrightarrow> nrows out_df = n \<and> map_of (columns out_df) col = first_column all sheet_name col))"
proof (intro conjI impI allI)
  assume "map_of final sheet_name = None"
  then have "sheet_name \<notin> set (map fst final)" by (simp add: map_of_eq_None_iff)
  then show "merge_sheet (sheet_name, df) final = final @ [(sheet_name, df)]"
    using \<open>map_of final sheet_name = None\<close> by (simp add: merge_sheet_def update_fresh)
next
  show "(map_of (final_data_to_write_by_sheet all) sheet_name = None)
         = list_all (\<lambda>d. map_of d sheet_name = None) all"
    using merge_invariant [OF assms, of sheet_name] by (auto split: option.splits)
next
  fix out_df assume out: "map_of (final_data_to_write_by_sheet all) sheet_name = Some out_df"
  note inv = merge_invariant [OF assms, of sheet_name, unfolded out, simplified]
  show "map fst (columns out_df) = union_columns all sheet_name" using inv by blast
  show vals: "map_of (columns out_df) col
            = map_option (pad_to (nrows out_df)) (first_column all sheet_name col)"
    using inv by blast
  assume uni: "list_all (\<lambda>d. case map_of d sheet_name of None \<Rightarrow> True | Some df' \<Rightarrow> nrows df' = n) all"
  show rows: "nrows out_df = n" using inv uni by blast
  show "map_of (columns out_df) col = first_column all sheet_name col"
  proof (cases "first_column all sheet_name col")
    case None
    then show ?thesis using vals by simp
  next
    case (Some v)
    have "length v = n" using first_column_length [OF assms uni Some] .
    then show ?thesis using vals Some rows by (simp add: pad_to_id)
  qed
qed

text \<open>The theorem at two sources that both have a column \<^verbatim>\<open>Name\<close> for the sheet
  \<^verbatim>\<open>Data\<close>: the merged column is the first source's.\<close>

theorem cross_source_merge_witness:
  "final_data_to_write_by_sheet
     [[(''Data'', \<lparr>nrows = 2, columns = [(''Name'', [PyStr ''Alice'', PyStr ''Bob''])]\<rparr>)],
      [(''Data'', \<lparr>nrows = 2, columns = [(''Name'', [PyStr ''X'', PyStr ''Y'']),
                                         (''City'', [PyStr ''P'', PyStr ''Q''])]\<rparr>)]]
     = [(''Data'', \<lparr>nrows = 2, columns = [(''Name'', [PyStr ''Alice'', PyStr ''Bob'']),
                                          (''City'', [PyStr ''P'', PyStr ''Q''])]\<rparr>)]
   \<and> first_column
     [[(''Data'', \<lparr>nrows = 2, columns = [(''Name'', [PyStr ''Alice'', PyStr ''Bob''])]\<rparr>)],
      [(''Data'', \<lparr>nrows = 2, columns = [(''Name'', [PyStr ''X'', PyStr ''Y'']),
                                         (''City'', [PyStr ''P'', PyStr ''Q''])]\<rparr>)]]
     ''Data'' ''Name'' = Some [PyStr ''Alice'', PyStr ''Bob'']"
proof -
  let ?a = "[(''Data'', \<lparr>nrows = 2, columns = [(''Name'', [PyStr ''Alice'', PyStr ''Bob''])]\<rparr>)]"
  let ?b = "[(''Data'', \<lparr>nrows = 2, columns = [(''Name'', [PyStr ''X'', PyStr ''Y'']),
                                         (''City'', [PyStr ''P'', PyStr ''Q''])]\<rparr>)]"
  let ?out = "\<lparr>nrows = 2, columns = [(''Name'', [PyStr ''Alice'', PyStr ''Bob'']),
                                          (''City'', [PyStr ''P'', PyStr ''Q''])]\<rparr>"
  have h: "list_all wf_source [?a, ?b]" by (simp add: wf_source_def wf_frame_def)
  have f: "final_data_to_write_by_sheet [?a, ?b] = [(''Data'', ?out)]" by code_simp
  have m: "map_of (final_data_to_write_by_sheet [?a, ?b]) ''Data'' = Some ?out"
    unfolding f by simp
  have u: "list_all (\<lambda>d. case map_of d ''Data'' of None \<Rightarrow> True | Some df' \<Rightarrow> nrows df' = 2) [?a, ?b]"
    by simp
  have "map_of (columns ?out) ''Name'' = first_column [?a, ?b] ''Data'' ''Name''"
    using cross_source_merge_first_writer_wins [OF h, of "[]" "''Data''" "?out" "''Name''" 2] m u
    by blast
  then show ?thesis using f by simp
qed

section \<open>Template Writer: what a write changes\<close>

lemma cell_value_get_cell: "cell_value (get_cell ws r c) r' c' = cell_value ws r' c'"
  by (auto simp: cell_value_def get_cell_def map_add_def split: option.splits)

lemma cell_value_cell:
  "cell_value (cell ws r c v) r' c'
     = (if (r', c') = (r, c) \<and> v \<noteq> PyNone then v else cell_value ws r' c')"
  using cell_value_get_cell [of ws r c r' c']
  by (auto simp: cell_def Let_def cell_value_def update_conv' split: option.splits)

lemma max_column_Max:
  "max_column ws = (if ws = [] then 1 else Max (set (map (snd \<circ> fst) ws)))"
proof (cases ws)
  case Nil
  then show ?thesis by (simp add: max_column_def)
next
  case (Cons a rest)
  have "fold max (map (snd \<circ> fst) rest) ((snd \<circ> fst) a) = Max (set (map (snd \<circ> fst) (a # rest)))"
    by (simp only: list.map Max.set_eq_fold)
  then show ?thesis using Cons by (simp add: max_column_def)
qed

lemma max_column_snoc:
  assumes "1 \<le> c" and "c \<le> max_column ws"
  shows "max_column (ws @ [((r, c), v)]) = max_column ws"
proof (cases "ws = []")
  case True
  then show ?thesis using assms by (simp add: max_column_def)
next
  case False
  then have ne: "set (map (snd \<circ> fst) ws) \<noteq> {}" by simp
  have "Max (set (map (snd \<circ> fst) (ws @ [((r, c), v)]))) = max c (Max (set (map (snd \<circ> fst) ws)))"
    using ne by (simp add: Max_insert [symmetric] del: Max_insert)
  then show ?thesis using assms False by (simp add: max_column_Max)
qed

lemma max_column_get_cell:
  "1 \<le> c \<Longrightarrow> c \<le> max_column ws \<Longrightarrow> max_column (get_cell ws r c) = max_column ws"
  by (simp add: get_cell_def max_column_snoc)

lemma map_fst_update_present: "k \<in> set (map fst al) \<Longrightarrow> map fst (AList.update k v al) = map fst al"
  by (induction al) auto

lemma get_cell_present: "(r, c) \<in> set (map fst (get_cell ws r c))"
  by (auto simp: get_cell_def map_of_eq_None_iff)

lemma max_column_keys: "map fst ws' = map fst ws \<Longrightarrow> max_column ws' = max_column ws"
proof -
  assume "map fst ws' = map fst ws"
  then have "map (snd \<circ> fst) ws' = map (snd \<circ> fst) ws"
    by (metis map_map)
  then show ?thesis by (simp add: max_column_def)
qed

lemma max_column_cell:
  assumes "1 \<le> c" and "c \<le> max_column ws"
  shows "max_column (cell ws r c v) = max_column ws"
proof -
  have "max_column (AList.update (r, c) v (get_cell ws r c)) = max_column (get_cell ws r c)"
    by (rule max_column_keys) (rule map_fst_update_present [OF get_cell_present])
  then show ?thesis using max_column_get_cell [OF assms] by (simp add: cell_def Let_def)
qed

lemma write_values_props:
  "1 \<le> col \<Longrightarrow> col \<le> max_column ws \<Longrightarrow>
   max_column (write_values ws col k vs) = max_column ws
   \<and> (\<forall>r c. cell_value (write_values ws col k vs) r c
        = (if c = col \<and> k + 2 \<le> r \<and> r < k + 2 + length vs \<and> vs ! (r - (k + 2)) \<noteq> PyNone
           then vs ! (r - (k + 2)) else cell_value ws r c))"
proof (induction vs arbitrary: ws k)
  case Nil
  then show ?case by auto
next
  case (Cons v vs)
  let ?ws1 = "cell ws (k + 2) col v"
  have mc: "max_column ?ws1 = max_column ws" using max_column_cell [OF Cons.prems] .
  have IH: "max_column (write_values ?ws1 col (Suc k) vs) = max_column ?ws1
   \<and> (\<forall>r c. cell_value (write_values ?ws1 col (Suc k) vs) r c
        = (if c = col \<and> Suc k + 2 \<le> r \<and> r < Suc k + 2 + length vs \<and> vs ! (r - (Suc k + 2)) \<noteq> PyNone
           then vs ! (r - (Suc k + 2)) else cell_value ?ws1 r c))"
    using Cons.IH [of ?ws1 "Suc k"] Cons.prems mc by simp
  have "cell_value (write_values ws col k (v # vs)) r c
        = (if c = col \<and> k + 2 \<le> r \<and> r < k + 2 + length (v # vs) \<and> (v # vs) ! (r - (k + 2)) \<noteq> PyNone
           then (v # vs) ! (r - (k + 2)) else cell_value ws r c)" for r c
  proof (cases "r = k + 2")
    case True
    then show ?thesis using IH by (simp add: cell_value_cell)
  next
    case False
    then have "(v # vs) ! (r - (k + 2)) = vs ! (r - (Suc k + 2))" if "k + 2 \<le> r"
      using that by (simp add: nth_Cons')
    then show ?thesis using IH False by (auto simp: cell_value_cell)
  qed
  then show ?case using IH mc by simp
qed

lemma fold_get_cell_props:
  "\<forall>c \<in> set cols. 1 \<le> c \<and> c \<le> max_column ws \<Longrightarrow>
   max_column (fold (\<lambda>col w. get_cell w row col) cols ws) = max_column ws
   \<and> cell_value (fold (\<lambda>col w. get_cell w row col) cols ws) r c' = cell_value ws r c'"
proof (induction cols arbitrary: ws)
  case Nil
  then show ?case by simp
next
  case (Cons a cols)
  have mc: "max_column (get_cell ws row a) = max_column ws"
    using Cons.prems by (simp add: max_column_get_cell)
  then have "\<forall>c \<in> set cols. 1 \<le> c \<and> c \<le> max_column (get_cell ws row a)"
    using Cons.prems by simp
  from Cons.IH [OF this] show ?case using mc by (simp add: cell_value_get_cell)
qed

lemma first_row_props:
  "max_column (first_row ws) = max_column ws \<and> cell_value (first_row ws) r c = cell_value ws r c"
  unfolding first_row_def by (rule fold_get_cell_props) auto

lemma length_header_row_values: "length (header_row_values ws) = max_column ws"
  by (simp add: header_row_values_def)

lemma header_row_values_eq:
  "max_column ws' = max_column ws \<Longrightarrow> (\<And>c. cell_value ws' 1 c = cell_value ws 1 c) \<Longrightarrow>
   header_row_values ws' = header_row_values ws"
  by (simp add: header_row_values_def)

lemma header_index_map_snoc:
  "header_index_map (hs @ [x])
     = (if x \<noteq> PyNone then AList.update x (length hs + 1) (header_index_map hs)
        else header_index_map hs)"
proof -
  have "[1..<length (hs @ [x]) + 1] = [1..<length hs + 1] @ [length hs + 1]" by simp
  then have "zip [1..<length (hs @ [x]) + 1] (hs @ [x])
      = zip [1..<length hs + 1] hs @ [(length hs + 1, x)]"
    by (simp del: upt_Suc)
  then show ?thesis by (simp add: header_index_map_def del: upt_Suc)
qed

lemma header_index_map_Some:
  "map_of (header_index_map hs) h = Some i \<Longrightarrow>
   1 \<le> i \<and> i \<le> length hs \<and> hs ! (i - 1) = h \<and> h \<noteq> PyNone
   \<and> (\<forall>j. i \<le> j \<and> j < length hs \<longrightarrow> hs ! j \<noteq> h)"
proof (induction hs arbitrary: i rule: rev_induct)
  case Nil
  then show ?case by (simp add: header_index_map_def)
next
  case (snoc x hs)
  show ?case
  proof (cases "x \<noteq> PyNone \<and> h = x")
    case True
    then have "i = length hs + 1" using snoc.prems by (simp add: header_index_map_snoc update_conv')
    then show ?thesis using True by auto
  next
    case False
    then have "map_of (header_index_map hs) h = Some i"
      using snoc.prems by (auto simp: header_index_map_snoc update_conv' split: if_splits)
    from snoc.IH [OF this] have IH: "1 \<le> i" "i \<le> length hs" "hs ! (i - 1) = h" "h \<noteq> PyNone"
      "\<forall>j. i \<le> j \<and> j < length hs \<longrightarrow> hs ! j \<noteq> h" by auto
    have "x \<noteq> h" using False IH(4) by auto
    then show ?thesis using IH by (auto simp: nth_append less_Suc_eq)
  qed
qed

lemma header_index_map_last:
  assumes "j < length hs" and "hs ! j = h" and "h \<noteq> PyNone"
    and "\<forall>k. j < k \<and> k < length hs \<longrightarrow> hs ! k \<noteq> h"
  shows "map_of (header_index_map hs) h = Some (j + 1)"
  using assms
proof (induction hs rule: rev_induct)
  case Nil
  then show ?case by simp
next
  case (snoc x hs)
  show ?case
  proof (cases "j = length hs")
    case True
    then show ?thesis using snoc.prems by (simp add: header_index_map_snoc update_conv')
  next
    case False
    then have j: "j < length hs" using snoc.prems(1) by simp
    have hj: "hs ! j = h" using snoc.prems(2) j by (simp add: nth_append)
    have "x \<noteq> h" using snoc.prems(4) j by (auto simp: nth_append dest: spec [of _ "length hs"])
    moreover have "\<forall>k. j < k \<and> k < length hs \<longrightarrow> hs ! k \<noteq> h"
      using snoc.prems(4) by (auto simp: nth_append dest: spec)
    ultimately show ?thesis
      using snoc.IH [OF j hj snoc.prems(3)] by (simp add: header_index_map_snoc update_conv')
  qed
qed

lemma fold_write_frame:
  assumes "\<forall>h c. map_of hmap h = Some c \<longrightarrow> 1 \<le> c \<and> c \<le> max_column w"
  defines "W \<equiv> (\<lambda>(excel_col_header, series) ws.
                       case map_of hmap (PyStr excel_col_header) of
                         Some col_idx \<Rightarrow> write_values ws col_idx 0 series
                       | None \<Rightarrow> ws)"
  shows "max_column (fold W cols w) = max_column w
    \<and> (\<forall>r c. cell_value (fold W cols w) r c \<noteq> cell_value w r c \<longrightarrow>
          (\<exists>hv \<in> set cols. map_of hmap (PyStr (fst hv)) = Some c \<and> 2 \<le> r \<and> r \<le> length (snd hv) + 1
              \<and> cell_value (fold W cols w) r c \<in> set (snd hv)))"
  using assms(1)
proof (induction cols arbitrary: w)
  case Nil
  then show ?case by simp
next
  case (Cons a cols)
  obtain h vs where a: "a = (h, vs)" by (cases a)
  define w1 where "w1 = W a w"
  have w1: "max_column w1 = max_column w
    \<and> (\<forall>r c. cell_value w1 r c \<noteq> cell_value w r c \<longrightarrow>
          map_of hmap (PyStr h) = Some c \<and> 2 \<le> r \<and> r \<le> length vs + 1)"
  proof (cases "map_of hmap (PyStr h)")
    case None
    then show ?thesis by (simp add: w1_def W_def a)
  next
    case (Some col)
    then have rng: "1 \<le> col" "col \<le> max_column w" using Cons.prems by auto
    have "w1 = write_values w col 0 vs" using Some by (simp add: w1_def W_def a)
    then show ?thesis using write_values_props [OF rng, of 0 vs] Some by auto
  qed
  then have "\<forall>h c. map_of hmap h = Some c \<longrightarrow> 1 \<le> c \<and> c \<le> max_column w1"
    using Cons.prems by simp
  note IH = Cons.IH [OF this]
  have step: "fold W (a # cols) w = fold W cols w1" by (simp add: w1_def)
  have "\<exists>hv \<in> set (a # cols). map_of hmap (PyStr (fst hv)) = Some c \<and> 2 \<le> r \<and> r \<le> length (snd hv) + 1
      \<and> cell_value (fold W cols w1) r c \<in> set (snd hv)"
    if neq: "cell_value (fold W cols w1) r c \<noteq> cell_value w r c" for r c
  proof (cases "cell_value (fold W cols w1) r c = cell_value w1 r c")
    case False
    then show ?thesis using IH by auto
  next
    case True
    then have ch: "cell_value w1 r c \<noteq> cell_value w r c" using neq by simp
    then have m: "map_of hmap (PyStr h) = Some c" "2 \<le> r" "r \<le> length vs + 1" using w1 by auto
    then have rng: "1 \<le> c" "c \<le> max_column w" using Cons.prems by auto
    have "w1 = write_values w c 0 vs" using m(1) by (simp add: w1_def W_def a)
    then have "cell_value w1 r c = vs ! (r - 2)"
      using write_values_props [OF rng, of 0 vs] ch by (auto split: if_splits simp: numeral_2_eq_2)
    moreover have "r - 2 < length vs" using m by auto
    ultimately have "cell_value w1 r c \<in> set vs" by simp
    then show ?thesis using m True a by auto
  qed
  then show ?case unfolding step using IH w1 by simp
qed

lemma fold_write_value:
  assumes rng: "\<forall>h c. map_of hmap h = Some c \<longrightarrow> 1 \<le> c \<and> c \<le> max_column w"
    and inj: "\<forall>h1 h2 c. map_of hmap (PyStr h1) = Some c \<and> map_of hmap (PyStr h2) = Some c \<longrightarrow> h1 = h2"
    and "distinct (map fst cols)" and "(h, vs) \<in> set cols" and "map_of hmap (PyStr h) = Some c"
    and "k < length vs" and "vs ! k \<noteq> PyNone"
  shows "cell_value (fold (\<lambda>(excel_col_header, series) ws.
                       case map_of hmap (PyStr excel_col_header) of
                         Some col_idx \<Rightarrow> write_values ws col_idx 0 series
                       | None \<Rightarrow> ws) cols w) (k + 2) c = vs ! k"
  using assms(1,3,4)
proof (induction cols arbitrary: w)
  case Nil
  then show ?case by simp
next
  case (Cons a cols)
  let ?W = "(\<lambda>(excel_col_header, series) ws.
                       case map_of hmap (PyStr excel_col_header) of
                         Some col_idx \<Rightarrow> write_values ws col_idx 0 series
                       | None \<Rightarrow> ws)"
  define w1 where "w1 = ?W a w"
  have mc1: "max_column w1 = max_column w"
    using fold_write_frame [OF Cons.prems(1), of "[a]"] by (simp add: w1_def)
  then have rng1: "\<forall>h c. map_of hmap h = Some c \<longrightarrow> 1 \<le> c \<and> c \<le> max_column w1"
    using Cons.prems(1) by simp
  have d: "distinct (map fst cols)" using Cons.prems(2) by simp
  show ?case
  proof (cases "a = (h, vs)")
    case True
    have crng: "1 \<le> c" "c \<le> max_column w" using Cons.prems(1) assms(5) by auto
    have "w1 = write_values w c 0 vs" using True assms(5) by (simp add: w1_def)
    then have v1: "cell_value w1 (k + 2) c = vs ! k"
      using write_values_props [OF crng, of 0 vs] assms(6,7) by simp
    have "cell_value (fold ?W cols w1) (k + 2) c = cell_value w1 (k + 2) c"
    proof (rule ccontr)
      assume "cell_value (fold ?W cols w1) (k + 2) c \<noteq> cell_value w1 (k + 2) c"
      then obtain hv where hv: "hv \<in> set cols" "map_of hmap (PyStr (fst hv)) = Some c"
        using fold_write_frame [OF rng1, of cols] by blast
      then have "fst hv = h" using inj assms(5) by blast
      then have "h \<in> set (map fst cols)" using hv(1) by force
      then show False using Cons.prems(2) True by simp
    qed
    then show ?thesis using v1 by (simp add: w1_def)
  next
    case False
    then have "(h, vs) \<in> set cols" using Cons.prems(3) by simp
    from Cons.IH [OF rng1 d this] show ?thesis by (simp add: w1_def)
  qed
qed

lemma header_index_map_range:
  "map_of (header_index_map (header_row_values ws)) h = Some c \<Longrightarrow> 1 \<le> c \<and> c \<le> max_column ws"
  using header_index_map_Some [of "header_row_values ws" h c]
  by (simp add: length_header_row_values)

lemma write_sheet_frame:
  "max_column (write_sheet ws df) = max_column ws
   \<and> (\<forall>r c. cell_value (write_sheet ws df) r c \<noteq> cell_value ws r c \<longrightarrow>
         \<not> empty df
         \<and> (\<exists>hv \<in> set (columns df).
               map_of (header_index_map (header_row_values ws)) (PyStr (fst hv)) = Some c
               \<and> 2 \<le> r \<and> r \<le> length (snd hv) + 1))"
proof (cases "empty df")
  case True
  then show ?thesis by (simp add: write_sheet_def)
next
  case False
  define hmap where "hmap = header_index_map (header_row_values ws)"
  have rng: "\<forall>h c. map_of hmap h = Some c \<longrightarrow> 1 \<le> c \<and> c \<le> max_column (first_row ws)"
    using header_index_map_range [of ws] first_row_props [of ws] by (simp add: hmap_def)
  note F = fold_write_frame [OF rng, of "columns df"]
  have ws: "write_sheet ws df = fold (\<lambda>(excel_col_header, series) ws.
                       case map_of hmap (PyStr excel_col_header) of
                         Some col_idx \<Rightarrow> write_values ws col_idx 0 series
                       | None \<Rightarrow> ws) (columns df) (first_row ws)"
    using False by (simp add: write_sheet_def hmap_def Let_def)
  show ?thesis
    unfolding ws using F False first_row_props [of ws] unfolding hmap_def by (simp; blast)
qed

lemma write_sheet_header:
  "header_row_values (write_sheet ws df) = header_row_values ws"
proof (rule header_row_values_eq)
  show "max_column (write_sheet ws df) = max_column ws" using write_sheet_frame by blast
  show "cell_value (write_sheet ws df) 1 c = cell_value ws 1 c" for c
  proof (rule ccontr)
    assume "cell_value (write_sheet ws df) 1 c \<noteq> cell_value ws 1 c"
    then have "(2::nat) \<le> 1" using write_sheet_frame [of ws df] by blast
    then show False by simp
  qed
qed

section \<open>Template Writer: sheets and header rows\<close>

text \<open>
  C6. For every template workbook and every map of merged tables, the output workbook has
  the sheets of the template, by name and in order, and no other; in every sheet the header
  row read back from the output is the header row of the template, cell for cell and of the
  same length; a sheet of the template for which there is no merged table is the template's
  sheet unchanged; and a merged table for a sheet name that the template does not have
  changes nothing in the output.
\<close>

theorem template_writer_keeps_sheets_and_headers:
  "map fst (write_dataframes_to_excel workbook data_frames_by_sheet) = map fst workbook
   \<and> list_all2 (\<lambda>template_sheet output_sheet.
          fst output_sheet = fst template_sheet
          \<and> header_row_values (snd output_sheet) = header_row_values (snd template_sheet)
          \<and> (map_of data_frames_by_sheet (fst template_sheet) = None
               \<longrightarrow> snd output_sheet = snd template_sheet))
        workbook (write_dataframes_to_excel workbook data_frames_by_sheet)
   \<and> (sheet_name \<notin> set (map fst workbook) \<longrightarrow>
        write_dataframes_to_excel workbook ((sheet_name, df) # data_frames_by_sheet)
          = write_dataframes_to_excel workbook data_frames_by_sheet)"
proof (intro conjI impI)
  show "map fst (write_dataframes_to_excel workbook data_frames_by_sheet) = map fst workbook"
    by (induction workbook) (auto simp: write_dataframes_to_excel_def split: option.splits)
  show "list_all2 (\<lambda>template_sheet output_sheet.
          fst output_sheet = fst template_sheet
          \<and> header_row_values (snd output_sheet) = header_row_values (snd template_sheet)
          \<and> (map_of data_frames_by_sheet (fst template_sheet) = None
               \<longrightarrow> snd output_sheet = snd template_sheet))
        workbook (write_dataframes_to_excel workbook data_frames_by_sheet)"
    unfolding write_dataframes_to_excel_def list_all2_map2
    by (rule list_all2_refl) (auto simp: write_sheet_header split: option.splits)
  assume "sheet_name \<notin> set (map fst workbook)"
  then show "write_dataframes_to_excel workbook ((sheet_name, df) # data_frames_by_sheet)
          = write_dataframes_to_excel workbook data_frames_by_sheet"
    unfolding write_dataframes_to_excel_def by (intro map_cong) force+
qed

text \<open>The theorem at a template with the sheets \<^verbatim>\<open>Data\<close> and \<^verbatim>\<open>Other\<close> and merged tables
  for \<^verbatim>\<open>New\<close> and \<^verbatim>\<open>Data\<close>.\<close>

theorem template_writer_keeps_sheets_and_headers_witness:
  "write_dataframes_to_excel
     [(''Data'', [((1, 1), PyStr ''Name''), ((1, 2), PyStr ''Age'')]),
      (''Other'', [((1, 1), PyStr ''X'')])]
     [(''New'', \<lparr>nrows = 1, columns = [(''Name'', [PyStr ''Z''])]\<rparr>),
      (''Data'', \<lparr>nrows = 1, columns = [(''Name'', [PyStr ''Alice'']), (''City'', [PyStr ''P''])]\<rparr>)]
   = [(''Data'', [((1, 1), PyStr ''Name''), ((1, 2), PyStr ''Age''), ((2, 1), PyStr ''Alice'')]),
      (''Other'', [((1, 1), PyStr ''X'')])]
   \<and> header_row_values [((1, 1), PyStr ''Name''), ((1, 2), PyStr ''Age''), ((2, 1), PyStr ''Alice'')]
     = header_row_values [((1, 1), PyStr ''Name''), ((1, 2), PyStr ''Age'')]"
proof -
  let ?wb = "[(''Data'', [((1, 1), PyStr ''Name''), ((1, 2), PyStr ''Age'')]),
      (''Other'', [((1::nat, 1::nat), PyStr ''X'')])]"
  let ?dfs = "[(''Data'', \<lparr>nrows = 1, columns = [(''Name'', [PyStr ''Alice'']), (''City'', [PyStr ''P''])]\<rparr>)]"
  let ?new = "\<lparr>nrows = 1, columns = [(''Name'', [PyStr ''Z''])]\<rparr>"
  have out: "write_dataframes_to_excel ?wb ?dfs
     = [(''Data'', [((1, 1), PyStr ''Name''), ((1, 2), PyStr ''Age''), ((2, 1), PyStr ''Alice'')]),
        (''Other'', [((1, 1), PyStr ''X'')])]"
    by code_simp
  have absent: "''New'' \<notin> set (map fst ?wb)" by simp
  note T = template_writer_keeps_sheets_and_headers [of ?wb ?dfs "''New''" ?new]
  have noop: "write_dataframes_to_excel ?wb ((''New'', ?new) # ?dfs) = write_dataframes_to_excel ?wb ?dfs"
    using T absent by blast
  have "header_row_values [((1, 1), PyStr ''Name''), ((1, 2), PyStr ''Age''), ((2, 1), PyStr ''Alice'')]
     = header_row_values [((1, 1), PyStr ''Name''), ((1, 2), PyStr ''Age'')]"
    using T unfolding out by simp
  then show ?thesis using noop out by simp
qed

section \<open>Template Writer: a header that occurs twice\<close>

text \<open>
  C9. When the header row of a template sheet holds the same string in two columns, the
  later of which is the last column with that header, and the merged table of the sheet
  has a column of that name, then no cell of the earlier column changes, and the values of
  the merged column that are not \<^verbatim>\<open>None\<close> stand in the last column, one per row from the
  row below the header.
\<close>

theorem duplicate_header_last_column_written:
  assumes "hs = header_row_values ws"
    and "i < j" and "j < length hs"
    and "hs ! i = PyStr h" and "hs ! j = PyStr h"
    and "\<forall>k. j < k \<and> k < length hs \<longrightarrow> hs ! k \<noteq> PyStr h"
    and "\<not> empty df" and "distinct (map fst (columns df))"
    and "(h, vs) \<in> set (columns df)"
  shows "(\<forall>r. cell_value (write_sheet ws df) r (i + 1) = cell_value ws r (i + 1))
    \<and> (\<forall>k. k < length vs \<and> vs ! k \<noteq> PyNone \<longrightarrow>
          cell_value (write_sheet ws df) (k + 2) (j + 1) = vs ! k)"
proof (intro conjI allI impI)
  fix r
  show "cell_value (write_sheet ws df) r (i + 1) = cell_value ws r (i + 1)"
  proof (rule ccontr)
    assume "cell_value (write_sheet ws df) r (i + 1) \<noteq> cell_value ws r (i + 1)"
    then have "\<exists>hv \<in> set (columns df).
               map_of (header_index_map (header_row_values ws)) (PyStr (fst hv)) = Some (i + 1)
               \<and> 2 \<le> r \<and> r \<le> length (snd hv) + 1"
      using write_sheet_frame [of ws df] by simp
    then obtain hv :: "string \<times> pyobj list"
      where "map_of (header_index_map hs) (PyStr (fst hv)) = Some (i + 1)"
      unfolding assms(1) by blast
    from header_index_map_Some [OF this]
    have "hs ! i = PyStr (fst hv)" and "\<forall>j. i + 1 \<le> j \<and> j < length hs \<longrightarrow> hs ! j \<noteq> PyStr (fst hv)"
      by auto
    then show False using assms(2,3,4,5) by auto
  qed
next
  fix k assume k: "k < length vs \<and> vs ! k \<noteq> PyNone"
  define hmap where "hmap = header_index_map hs"
  have rng: "\<forall>h c. map_of hmap h = Some c \<longrightarrow> 1 \<le> c \<and> c \<le> max_column (first_row ws)"
    using header_index_map_range [of ws] first_row_props [of ws] by (simp add: hmap_def assms(1))
  have inj: "\<forall>h1 h2 c. map_of hmap (PyStr h1) = Some c \<and> map_of hmap (PyStr h2) = Some c \<longrightarrow> h1 = h2"
  proof (intro allI impI)
    fix h1 h2 c assume a: "map_of hmap (PyStr h1) = Some c \<and> map_of hmap (PyStr h2) = Some c"
    then have "hs ! (c - 1) = PyStr h1" "hs ! (c - 1) = PyStr h2"
      using header_index_map_Some [of hs] unfolding hmap_def by blast+
    then show "h1 = h2" by simp
  qed
  have last: "map_of hmap (PyStr h) = Some (j + 1)"
    unfolding hmap_def using header_index_map_last [OF assms(3,5) _ assms(6)] by simp
  have ws: "write_sheet ws df = fold (\<lambda>(excel_col_header, series) ws.
                       case map_of hmap (PyStr excel_col_header) of
                         Some col_idx \<Rightarrow> write_values ws col_idx 0 series
                       | None \<Rightarrow> ws) (columns df) (first_row ws)"
    using assms(7) by (simp add: write_sheet_def hmap_def assms(1) Let_def)
  show "cell_value (write_sheet ws df) (k + 2) (j + 1) = vs ! k"
    unfolding ws using fold_write_value [OF rng inj assms(8,9) last] k by blast
qed

text \<open>The theorem at a sheet with the headers \<^verbatim>\<open>Name, Age, Name\<close>.\<close>

theorem duplicate_header_witness:
  "write_sheet [((1, 1), PyStr ''Name''), ((1, 2), PyStr ''Age''), ((1, 3), PyStr ''Name'')]
      \<lparr>nrows = 2, columns = [(''Name'', [PyStr ''Alice'', PyStr ''Bob''])]\<rparr>
   = [((1, 1), PyStr ''Name''), ((1, 2), PyStr ''Age''), ((1, 3), PyStr ''Name''),
      ((2, 3), PyStr ''Alice''), ((3, 3), PyStr ''Bob'')]
   \<and> cell_value (write_sheet [((1, 1), PyStr ''Name''), ((1, 2), PyStr ''Age''), ((1, 3), PyStr ''Name'')]
      \<lparr>nrows = 2, columns = [(''Name'', [PyStr ''Alice'', PyStr ''Bob''])]\<rparr>) 2 1 = PyNone"
proof -
  let ?ws = "[((1::nat, 1::nat), PyStr ''Name''), ((1, 2), PyStr ''Age''), ((1, 3), PyStr ''Name'')]"
  let ?df = "\<lparr>nrows = 2, columns = [(''Name'', [PyStr ''Alice'', PyStr ''Bob''])]\<rparr>"
  let ?hs = "[PyStr ''Name'', PyStr ''Age'', PyStr ''Name'']"
  have h1: "?hs = header_row_values ?ws" by code_simp
  have h2: "(0::nat) < 2" and h3: "2 < length ?hs" by simp_all
  have h4: "?hs ! 0 = PyStr ''Name''" and h5: "?hs ! 2 = PyStr ''Name''" by simp_all
  have h6: "\<forall>k. 2 < k \<and> k < length ?hs \<longrightarrow> ?hs ! k \<noteq> PyStr ''Name''" by simp
  have h7: "\<not> empty ?df" by (simp add: empty_def)
  have h8: "distinct (map fst (columns ?df))" by simp
  have h9: "(''Name'', [PyStr ''Alice'', PyStr ''Bob'']) \<in> set (columns ?df)" by simp
  have out: "write_sheet ?ws ?df = [((1, 1), PyStr ''Name''), ((1, 2), PyStr ''Age''), ((1, 3), PyStr ''Name''),
      ((2, 3), PyStr ''Alice''), ((3, 3), PyStr ''Bob'')]"
    by code_simp
  have "cell_value (write_sheet ?ws ?df) 2 (0 + 1) = cell_value ?ws 2 (0 + 1)"
    using duplicate_header_last_column_written [OF h1 h2 h3 h4 h5 h6 h7 h8 h9] by blast
  moreover have "cell_value ?ws 2 (0 + 1) = PyNone" by (simp add: cell_value_def)
  ultimately show ?thesis using out by simp
qed

section \<open>Template Writer: the cells outside the written range\<close>

text \<open>
  C10. In every sheet of the output, a cell whose value differs from the template's
  belongs to a column that the header row matches with a column of the sheet's merged
  table, and its row lies between the row below the header and the row (number of merged
  values + 1). So the content of a matched column below that range, the header row, and
  every cell of an unmatched column or of a sheet without merged table are as in the
  template.
\<close>

theorem template_writer_frame:
  "list_all2 (\<lambda>template_sheet output_sheet.
      \<forall>r c. cell_value (snd output_sheet) r c \<noteq> cell_value (snd template_sheet) r c \<longrightarrow>
        (\<exists>df. map_of data_frames_by_sheet (fst template_sheet) = Some df
           \<and> (\<exists>hv \<in> set (columns df).
                 map_of (header_index_map (header_row_values (snd template_sheet))) (PyStr (fst hv))
                   = Some c
                 \<and> 2 \<le> r \<and> r \<le> length (snd hv) + 1)))
     workbook (write_dataframes_to_excel workbook data_frames_by_sheet)"
  unfolding write_dataframes_to_excel_def list_all2_map2
proof (rule list_all2_refl)
  fix x :: "string \<times> worksheet"
  obtain n ws where x: "x = (n, ws)" by (cases x)
  show "\<forall>r c. cell_value (snd (case x of (sheet_name_in_template, worksheet) \<Rightarrow>
            case map_of data_frames_by_sheet sheet_name_in_template of
              Some df_for_sheet \<Rightarrow> (sheet_name_in_template, write_sheet worksheet df_for_sheet)
            | None \<Rightarrow> (sheet_name_in_template, worksheet))) r c \<noteq> cell_value (snd x) r c \<longrightarrow>
        (\<exists>df. map_of data_frames_by_sheet (fst x) = Some df
           \<and> (\<exists>hv \<in> set (columns df).
                 map_of (header_index_map (header_row_values (snd x))) (PyStr (fst hv)) = Some c
                 \<and> 2 \<le> r \<and> r \<le> length (snd hv) + 1))"
  proof (cases "map_of data_frames_by_sheet n")
    case None
    then show ?thesis by (simp add: x)
  next
    case (Some df)
    then show ?thesis using write_sheet_frame [of ws df] by (simp add: x)
  qed
qed

text \<open>The theorem at a sheet whose column \<^verbatim>\<open>Name\<close> holds a value in row 4 and gets two
  merged values: row 4 keeps its value.\<close>

theorem template_writer_frame_witness:
  "cell_value (snd (hd (write_dataframes_to_excel
      [(''Data'', [((1, 1), PyStr ''Name''), ((1, 2), PyStr ''Age''), ((2, 2), PyStr ''old''),
                   ((4, 1), PyStr ''stale'')])]
      [(''Data'', \<lparr>nrows = 2, columns = [(''Name'', [PyStr ''Alice'', PyStr ''Bob''])]\<rparr>)]))) 4 1
     = PyStr ''stale''
   \<and> write_dataframes_to_excel
      [(''Data'', [((1, 1), PyStr ''Name''), ((1, 2), PyStr ''Age''), ((2, 2), PyStr ''old''),
                   ((4, 1), PyStr ''stale'')])]
      [(''Data'', \<lparr>nrows = 2, columns = [(''Name'', [PyStr ''Alice'', PyStr ''Bob''])]\<rparr>)]
     = [(''Data'', [((1, 1), PyStr ''Name''), ((1, 2), PyStr ''Age''), ((2, 2), PyStr ''old''),
                    ((4, 1), PyStr ''stale''), ((2, 1), PyStr ''Alice''), ((3, 1), PyStr ''Bob'')])]"
proof -
  let ?ws = "[((1::nat, 1::nat), PyStr ''Name''), ((1, 2), PyStr ''Age''), ((2, 2), PyStr ''old''),
                   ((4, 1), PyStr ''stale'')]"
  let ?dfs = "[(''Data'', \<lparr>nrows = 2, columns = [(''Name'', [PyStr ''Alice'', PyStr ''Bob''])]\<rparr>)]"
  let ?out = "[((1::nat, 1::nat), PyStr ''Name''), ((1, 2), PyStr ''Age''), ((2, 2), PyStr ''old''),
                    ((4, 1), PyStr ''stale''), ((2, 1), PyStr ''Alice''), ((3, 1), PyStr ''Bob'')]"
  have out: "write_dataframes_to_excel [(''Data'', ?ws)] ?dfs = [(''Data'', ?out)]"
    by code_simp
  note F = template_writer_frame [where workbook = "[(''Data'', ?ws)]" and data_frames_by_sheet = ?dfs,
      unfolded out, simplified, rule_format, of 4 1]
  have "cell_value ?out 4 1 = cell_value ?ws 4 1"
  proof (rule ccontr)
    assume "cell_value ?out 4 1 \<noteq> cell_value ?ws 4 1"
    then show False using F by simp
  qed
  then show ?thesis unfolding out by (simp add: cell_value_def)
qed

end
